theory Spec2Isabelle
  imports Main "HOL-Library.Word" "HOL-Library.AList"
begin

section \<open>Python values and exceptions\<close>

text \<open>
  The exception classes named by \<^verbatim>\<open>mp_pipeline.py\<close>.  The first six come
  from \<^verbatim>\<open>atbu.common.exception\<close> and \<^verbatim>\<open>.exception\<close>; the others are
  Python built-ins.  \<open>RuntimeError\<close> stands for any exception raised by user code
  (a stage worker or a stage predicate), told apart by its message.
  \<open>FutureInvalidStateError\<close> is \<^verbatim>\<open>concurrent.futures.InvalidStateError\<close>, raised
  by \<^verbatim>\<open>Future.set_result\<close> on a future that is already done.
\<close>

datatype exc =
    InvalidFunctionArgument
  | InvalidStateError
  | InvalidPipeConnectionMessage
  | PipeConnectionAlreadyEof
  | PipelineResultIsNotPipelineWorkItem
  | PipelineLastStageError
  | NotImplementedError
  | EOFError
  | OSError
  | IndexError
  | FutureInvalidStateError
  | AttributeError
  | RuntimeError string

type_synonym bytes = "8 word list"

text \<open>
  The Python objects that can stand where the code expects a \<^verbatim>\<open>str\<close> or a
  \<^verbatim>\<open>bytes\<close>: \<open>PyBytes\<close> is a \<^verbatim>\<open>bytes\<close> or \<^verbatim>\<open>bytearray\<close> (the code
  tests for both together and only takes their \<^verbatim>\<open>len\<close>).
\<close>

datatype pyval = PyNone | PyStr string | PyBytes bytes | PyInt int

text \<open>
  An object travelling over a pipe connection: an instance of
  \<^verbatim>\<open>PipeConnectionMessage\<close> with its two attributes, or anything else.
\<close>

datatype pyobject = Message pyval pyval | NotMessage pyval

section \<open>Logging verbosity\<close>

text \<open>
  \<^verbatim>\<open>_is_very_verbose_logging\<close> reads two settings of the process: the verbosity
  level of \<^verbatim>\<open>mp_global\<close> and the effective level of the root logger.  They are
  the environment of the model.  \<^verbatim>\<open>logging.DEBUG\<close> is 10.
\<close>

record log_env =
  verbosity_level :: int
  effective_level :: int

definition logging_DEBUG :: int where
  "logging_DEBUG = 10"

definition is_very_verbose_logging :: "log_env \<Rightarrow> bool" where
  "is_very_verbose_logging env =
     (verbosity_level env \<ge> 2 \<and> effective_level env \<ge> logging_DEBUG)"

section \<open>The framed byte channel: \<^verbatim>\<open>PipeConnectionIO\<close>\<close>

definition PIPE_CONN_MSG_CMD_DATA :: string where
  "PIPE_CONN_MSG_CMD_DATA = ''data''"

definition PIPE_CONN_MSG_CMD_DATA_FINAL :: string where
  "PIPE_CONN_MSG_CMD_DATA_FINAL = ''data-final''"

definition PIPE_CONN_MSG_DATA_CMDS :: "string list" where
  "PIPE_CONN_MSG_DATA_CMDS = [PIPE_CONN_MSG_CMD_DATA, PIPE_CONN_MSG_CMD_DATA_FINAL]"

text \<open>
  The constructor of \<^verbatim>\<open>PipeConnectionMessage\<close>: a missing payload becomes the
  empty \<^verbatim>\<open>bytes\<close>, any other non-bytes payload is refused.  The command is stored
  unchecked.
\<close>

definition PipeConnectionMessage :: "pyval \<Rightarrow> pyval \<Rightarrow> exc + pyobject" where
  "PipeConnectionMessage cmd data =
     (let data1 = (if data = PyNone then PyBytes [] else data) in
      case data1 of
        PyBytes b \<Rightarrow> Inr (Message cmd data1)
      | _ \<Rightarrow> Inl InvalidFunctionArgument)"

text \<open>
  One end of a \<^verbatim>\<open>multiprocessing\<close> pipe.  \<open>c_sent\<close> logs the objects handed to
  the transport by \<^verbatim>\<open>send\<close>, oldest first.
\<close>

record connection =
  c_fileno :: int
  c_closed :: bool
  c_sent :: "pyobject list"

text \<open>
  What the transport does is an input of the model: \<open>tx\<close> is the error a
  \<^verbatim>\<open>send\<close> meets on the wire (\<open>None\<close> when the record is delivered), and a
  \<open>recv_outcome\<close> is what a blocking \<^verbatim>\<open>recv\<close> comes back with.  A closed
  connection fails with \<^verbatim>\<open>OSError\<close> before touching the wire.
\<close>

datatype recv_outcome = RxObject pyobject | RxEOF | RxError exc

definition conn_send :: "connection \<Rightarrow> pyobject \<Rightarrow> exc option \<Rightarrow> exc + connection" where
  "conn_send cn obj tx =
     (if c_closed cn then Inl OSError
      else case tx of
        Some e \<Rightarrow> Inl e
      | None \<Rightarrow> Inr (cn\<lparr>c_sent := c_sent cn @ [obj]\<rparr>))"

definition conn_recv :: "connection \<Rightarrow> recv_outcome \<Rightarrow> exc + pyobject" where
  "conn_recv cn rx =
     (if c_closed cn then Inl OSError
      else case rx of
        RxObject obj \<Rightarrow> Inr obj
      | RxEOF \<Rightarrow> Inl EOFError
      | RxError e \<Rightarrow> Inl e)"

definition conn_close :: "connection \<Rightarrow> connection" where
  "conn_close cn = cn\<lparr>c_closed := True\<rparr>"

record pipe_connection_io =
  io_c :: connection
  io_is_write :: bool
  io_num_bytes :: int
  io_cached_fileno :: int
  io_eof :: bool

definition new_PipeConnectionIO :: "connection \<Rightarrow> bool \<Rightarrow> pipe_connection_io" where
  "new_PipeConnectionIO cn is_write =
     \<lparr>io_c = cn, io_is_write = is_write, io_num_bytes = 0,
      io_cached_fileno = c_fileno cn, io_eof = False\<rparr>"

definition reset_num_bytes :: "pipe_connection_io \<Rightarrow> pipe_connection_io" where
  "reset_num_bytes self = self\<lparr>io_num_bytes := 0\<rparr>"

definition tell :: "pipe_connection_io \<Rightarrow> int" where
  "tell self = io_num_bytes self"

definition closed :: "pipe_connection_io \<Rightarrow> bool" where
  "closed self = c_closed (io_c self)"

text \<open>
  Every operation returns its outcome (\<open>Inl\<close> the exception raised) together with
  the endpoint as the call leaves it, since \<^verbatim>\<open>read\<close> can raise after
  \<^verbatim>\<open>recv_message\<close> has already updated the endpoint.  The logging calls change
  nothing and are left out.
\<close>

definition send_message ::
  "pipe_connection_io \<Rightarrow> pyobject \<Rightarrow> exc option \<Rightarrow> (exc + unit) \<times> pipe_connection_io" where
  "send_message self msg tx =
     (if io_eof self then (Inl PipeConnectionAlreadyEof, self)
      else case msg of
        NotMessage v \<Rightarrow> (Inl InvalidFunctionArgument, self)
      | Message mcmd mdata \<Rightarrow>
          (case mcmd of
             PyStr cmd \<Rightarrow>
               (let size = (case mdata of PyBytes b \<Rightarrow> int (length b) | _ \<Rightarrow> - 1) in
                case conn_send (io_c self) msg tx of
                  Inl e \<Rightarrow> (Inl e, self)
                | Inr cn \<Rightarrow>
                    (let s1 = self\<lparr>io_c := cn\<rparr>;
                         s2 = (if cmd = PIPE_CONN_MSG_CMD_DATA_FINAL
                               then s1\<lparr>io_eof := True\<rparr> else s1);
                         s3 = (if size \<noteq> - 1
                               then s2\<lparr>io_num_bytes := io_num_bytes s2 + size\<rparr> else s2)
                     in (Inr (), s3)))
           | _ \<Rightarrow> (Inl InvalidFunctionArgument, self)))"

definition recv_message ::
  "pipe_connection_io \<Rightarrow> recv_outcome \<Rightarrow> (exc + pyobject) \<times> pipe_connection_io" where
  "recv_message self rx =
     (case conn_recv (io_c self) rx of
        Inl e \<Rightarrow> (Inl e, self)
      | Inr msg \<Rightarrow>
          (case msg of
             NotMessage v \<Rightarrow> (Inl InvalidPipeConnectionMessage, self)
           | Message mcmd mdata \<Rightarrow>
               (case mcmd of
                  PyStr cmd \<Rightarrow>
                    (let s1 = (if cmd = PIPE_CONN_MSG_CMD_DATA_FINAL
                               then self\<lparr>io_eof := True\<rparr> else self);
                         s2 = (case mdata of
                                 PyBytes b \<Rightarrow>
                                   s1\<lparr>io_num_bytes := io_num_bytes s1 + int (length b)\<rparr>
                               | _ \<Rightarrow> s1)
                     in (Inr msg, s2))
                | _ \<Rightarrow> (Inl InvalidPipeConnectionMessage, self))))"

definition write_raw ::
  "pipe_connection_io \<Rightarrow> pyval \<Rightarrow> bytes \<Rightarrow> exc option \<Rightarrow> (exc + int) \<times> pipe_connection_io" where
  "write_raw self cmd buf tx =
     (if \<not> io_is_write self then (Inl NotImplementedError, self)
      else case PipeConnectionMessage cmd (PyBytes buf) of
        Inl e \<Rightarrow> (Inl e, self)
      | Inr msg \<Rightarrow>
          (case send_message self msg tx of
             (Inl e, s) \<Rightarrow> (Inl e, s)
           | (Inr u, s) \<Rightarrow> (Inr (int (length buf)), s)))"

definition validate_write_buf :: "pyval \<Rightarrow> exc + bytes" where
  "validate_write_buf buf =
     (case buf of
        PyNone \<Rightarrow> Inl InvalidFunctionArgument
      | PyBytes b \<Rightarrow> Inr b
      | _ \<Rightarrow> Inl InvalidFunctionArgument)"

definition write_eof ::
  "pipe_connection_io \<Rightarrow> pyval \<Rightarrow> exc option \<Rightarrow> (exc + int) \<times> pipe_connection_io" where
  "write_eof self buf tx =
     (if io_eof self then (Inl PipeConnectionAlreadyEof, self)
      else case validate_write_buf buf of
        Inl e \<Rightarrow> (Inl e, self)
      | Inr b \<Rightarrow> write_raw self (PyStr PIPE_CONN_MSG_CMD_DATA_FINAL) b tx)"

definition write_bytes ::
  "pipe_connection_io \<Rightarrow> pyval \<Rightarrow> exc option \<Rightarrow> (exc + int) \<times> pipe_connection_io" where
  "write_bytes self buf tx =
     (case validate_write_buf buf of
        Inl e \<Rightarrow> (Inl e, self)
      | Inr b \<Rightarrow>
          (if length b = 0 then (Inr 0, self)
           else write_raw self (PyStr PIPE_CONN_MSG_CMD_DATA) b tx))"

text \<open>
  \<^verbatim>\<open>write\<close> (named \<open>write_bytes\<close> here, \<open>write\<close> being a keyword of the
  prover) and \<^verbatim>\<open>read\<close>: \<open>size_arg\<close> is the optional argument of the base-class interface.  An
  \<^verbatim>\<open>EOFError\<close> from the transport (the sender closed while the reader waited)
  is answered with the empty buffer; every other exception is logged and raised again.
\<close>

definition read ::
  "pipe_connection_io \<Rightarrow> int option \<Rightarrow> recv_outcome \<Rightarrow> (exc + bytes) \<times> pipe_connection_io" where
  "read self size_arg rx =
     (if io_is_write self then (Inl NotImplementedError, self)
      else if size_arg \<noteq> None then (Inl InvalidPipeConnectionMessage, self)
      else if io_eof self then (Inr [], self)
      else case recv_message self rx of
        (Inl e, s) \<Rightarrow> (if e = EOFError then (Inr [], s) else (Inl e, s))
      | (Inr msg, s) \<Rightarrow>
          (case msg of
             NotMessage v \<Rightarrow> (Inl InvalidPipeConnectionMessage, s)
           | Message mcmd mdata \<Rightarrow>
               (case mcmd of
                  PyStr cmd \<Rightarrow>
                    (if cmd \<notin> set PIPE_CONN_MSG_DATA_CMDS
                     then (Inl InvalidPipeConnectionMessage, s)
                     else case mdata of
                       PyBytes b \<Rightarrow> (Inr b, s)
                     | _ \<Rightarrow> (Inl InvalidPipeConnectionMessage, s))
                | _ \<Rightarrow> (Inl InvalidPipeConnectionMessage, s))))"

text \<open>
  \<^verbatim>\<open>close\<close>: in the source the call \<^verbatim>\<open>self.c.close()\<close> is indented under the
  \<^verbatim>\<open>if _is_very_verbose_logging():\<close> that guards the debug message.
\<close>

definition close :: "log_env \<Rightarrow> pipe_connection_io \<Rightarrow> pipe_connection_io" where
  "close env self =
     (if is_very_verbose_logging env then self\<lparr>io_c := conn_close (io_c self)\<rparr> else self)"

text \<open>Concrete endpoints used to run the operations.\<close>

definition pipe_r :: connection where
  "pipe_r = \<lparr>c_fileno = 3, c_closed = False, c_sent = []\<rparr>"

definition pipe_w :: connection where
  "pipe_w = \<lparr>c_fileno = 4, c_closed = False, c_sent = []\<rparr>"

definition reader0 :: pipe_connection_io where
  "reader0 = new_PipeConnectionIO pipe_r False"

definition writer0 :: pipe_connection_io where
  "writer0 = new_PipeConnectionIO pipe_w True"

definition quiet_env :: log_env where
  "quiet_env = \<lparr>verbosity_level = 0, effective_level = 30\<rparr>"

section \<open>Work items\<close>

text \<open>
  Objects are told apart by identity: a \<^verbatim>\<open>PipelineWorkItem\<close>, a \<^verbatim>\<open>Future\<close> and a
  pipe \<^verbatim>\<open>Connection\<close> are each named by a number, and the attributes of the work
  items live in a store from references to records.  \<open>attrs\<close> holds the entries of
  an item's \<^verbatim>\<open>__dict__\<close> that are not in \<^verbatim>\<open>_OUR_ATTRIBUTES\<close>; the failure list
  \<open>exceptions\<close> is \<open>None\<close> until the first failure, as in the source.
\<close>

type_synonym fut = nat
type_synonym wi_ref = nat
type_synonym conn_id = nat

record work_item =
  cur_stage :: int
  user_obj :: pyval
  user_kwargs :: "(string \<times> pyval) list option"
  exceptions :: "exc list option"
  pipe_conn :: "conn_id option"
  auto_copy_attr :: bool
  attrs :: "(string \<times> pyval) list"

definition new_PipelineWorkItem ::
  "pyval \<Rightarrow> bool \<Rightarrow> (string \<times> pyval) list \<Rightarrow> work_item" where
  "new_PipelineWorkItem uo auto_copy kwargs =
     \<lparr>cur_stage = 0, user_obj = uo, user_kwargs = Some kwargs, exceptions = None,
      pipe_conn = None, auto_copy_attr = auto_copy, attrs = []\<rparr>"

definition is_failed :: "work_item \<Rightarrow> bool" where
  "is_failed self = (case exceptions self of None \<Rightarrow> False | Some l \<Rightarrow> length l > 0)"

definition increment_stage :: "work_item \<Rightarrow> work_item" where
  "increment_stage self = self\<lparr>cur_stage := cur_stage self + 1\<rparr>"

definition append_exception :: "work_item \<Rightarrow> exc \<Rightarrow> work_item" where
  "append_exception self ex =
     self\<lparr>exceptions := Some ((case exceptions self of None \<Rightarrow> [] | Some l \<Rightarrow> l) @ [ex])\<rparr>"

definition copy_attrs :: "(string \<times> pyval) list \<Rightarrow> (string \<times> pyval) list \<Rightarrow> (string \<times> pyval) list" where
  "copy_attrs src dst = fold (\<lambda>(k, v). AList.update k v) src dst"

text \<open>
  \<^verbatim>\<open>stage_complete\<close> of the base class.  The receiver \<open>self\<close> and the argument
  \<open>wi\<close> are references into the store \<open>h\<close>, and every read goes through the store
  as it stands at that statement: the controller passes the receiver itself as \<open>wi\<close>
  when the stage failed, so \<^verbatim>\<open>wi.is_failed\<close> and \<^verbatim>\<open>wi.exceptions\<close> then see what
  \<^verbatim>\<open>self.append_exception(ex)\<close> has just written.
\<close>

definition stage_complete ::
  "(wi_ref \<Rightarrow> work_item) \<Rightarrow> wi_ref \<Rightarrow> int \<Rightarrow> wi_ref \<Rightarrow> exc option \<Rightarrow> (wi_ref \<Rightarrow> work_item)" where
  "stage_complete h self stage_num wi ex =
     (let h1 = (case ex of
                  Some e \<Rightarrow> h(self := append_exception (h self) e)
                | None \<Rightarrow> h);
          h2 = (if is_failed (h1 wi)
                then h1(self := (h1 self)\<lparr>exceptions :=
                       Some ((case exceptions (h1 self) of None \<Rightarrow> [] | Some l \<Rightarrow> l)
                             @ (case exceptions (h1 wi) of None \<Rightarrow> [] | Some l \<Rightarrow> l))\<rparr>)
                else h1);
          h3 = h2(self := (h2 self)\<lparr>user_obj := user_obj (h2 wi)\<rparr>);
          h4 = (if auto_copy_attr (h3 self)
                then h3(self := (h3 self)\<lparr>attrs := copy_attrs (attrs (h3 wi)) (attrs (h3 self))\<rparr>)
                else h3)
      in h4)"

section \<open>Stages\<close>

text \<open>
  A stage: its class decides \<^verbatim>\<open>is_subprocess\<close> (the base class raises), the
  predicate \<^verbatim>\<open>fn_determiner\<close> answers or raises, and subclasses override
  \<^verbatim>\<open>is_pipe_with_next_stage\<close>.  The worker runs inside an executor; what it returns
  or raises reaches the controller through the stage's \<^verbatim>\<open>Future\<close>, which the
  environment completes.
\<close>

datatype stage_class = PipelineStage | SubprocessPipelineStage | ThreadPipelineStage

record stage =
  stage_class :: stage_class
  fn_determiner :: "(work_item \<Rightarrow> exc + bool) option"
  stage_kwargs :: "(string \<times> pyval) list"
  is_pipe_with_next_stage :: bool

definition is_subprocess :: "stage \<Rightarrow> exc + bool" where
  "is_subprocess s =
     (case stage_class s of
        PipelineStage \<Rightarrow> Inl NotImplementedError
      | SubprocessPipelineStage \<Rightarrow> Inr True
      | ThreadPipelineStage \<Rightarrow> Inr False)"

definition is_for_stage :: "stage \<Rightarrow> work_item \<Rightarrow> exc + bool" where
  "is_for_stage s pwi =
     (case fn_determiner s of
        None \<Rightarrow> Inl InvalidStateError
      | Some f \<Rightarrow> f pwi)"

section \<open>The pipeline\<close>

text \<open>
  The state of a \<^verbatim>\<open>MultiprocessingPipeline\<close> and of the objects it works on.
  \<^item> \<open>wi_to_wifut\<close> and \<open>running_wi_contexts\<close> are dictionaries whose iteration
    order or size the code uses: association lists in insertion order
    (\<open>AList.update\<close> keeps the place of an existing key and appends a new one).
    The key \<open>None\<close> of \<open>wi_to_wifut\<close> is the shutdown sentinel, which
    \<^verbatim>\<open>_internal_submit(None)\<close> registers like a work item.
  \<^item> \<open>plfut_to_wi\<close> and \<open>fut_to_pipe_conn\<close> are only looked up, set and deleted:
    maps.
  \<^item> The three executors are reduced to their shut-down flags; \<open>submissions\<close> logs
    each task handed to an executor, with the copy of the work item it was given.
  \<^item> \<open>futs\<close> is the state of every \<^verbatim>\<open>Future\<close>, \<open>next_fut\<close> the next unused
    identity; \<open>conn_close_calls\<close> counts the calls of \<^verbatim>\<open>close\<close> on each pipe
    connection, \<open>next_conn\<close> is the next unused connection.
  The controller, the submitting caller and the workers run in different threads and
  processes.  The model runs one of them at a time: a call of the caller
  (\<open>submit\<close>, \<open>shutdown\<close>), one iteration of the controller loop, or the completion
  of a stage future by the environment.  A call that has to wait for another thread
  ends with \<open>Blocks\<close> and the state it waits in.
\<close>

datatype fut_value = ValWorkItem wi_ref | ValOther pyval

datatype fut_state = Pending | Done_Result fut_value | Done_Exception exc

record ctx =
  ctx_cur_stage :: int
  ctx_fut :: fut
  ctx_wi :: wi_ref

datatype executor = ThreadExec | ProcessExec | ProcessExec2

record submission =
  sub_executor :: executor
  sub_stage :: stage
  sub_item :: work_item
  sub_kwargs :: "(string \<times> pyval) list"
  sub_fut :: fut

record pipeline =
  stages :: "stage list"
  is_shutdown :: bool
  wi_to_wifut :: "(wi_ref option \<times> fut) list"
  pl_worker_future :: "fut option"
  input_queue_fut :: "fut option"
  pl_input_queue :: "wi_ref option list"
  plfut_to_wi :: "fut \<rightharpoonup> wi_ref"
  running_wi_contexts :: "(wi_ref \<times> ctx list) list"
  fut_to_pipe_conn :: "fut \<rightharpoonup> conn_id"
  was_graceful_shutdown :: bool
  anomalies :: "exc list"
  thread_exec_shutdown :: bool
  process_exec_shutdown :: bool
  process_exec2_shutdown :: bool
  heap :: "wi_ref \<Rightarrow> work_item"
  futs :: "fut \<Rightarrow> fut_state"
  next_fut :: nat
  conn_close_calls :: "conn_id \<Rightarrow> nat"
  next_conn :: nat
  submissions :: "submission list"

datatype 'a outcome = Returns 'a | Raises exc | Blocks

type_synonym 'a pl = "pipeline \<Rightarrow> 'a outcome \<times> pipeline"

definition and_then :: "'a pl \<Rightarrow> ('a \<Rightarrow> 'b pl) \<Rightarrow> 'b pl" where
  "and_then m f st =
     (case m st of
        (Returns x, st1) \<Rightarrow> f x st1
      | (Raises e, st1) \<Rightarrow> (Raises e, st1)
      | (Blocks, st1) \<Rightarrow> (Blocks, st1))"

definition new_MultiprocessingPipeline :: "stage list \<Rightarrow> (wi_ref \<Rightarrow> work_item) \<Rightarrow> pipeline" where
  "new_MultiprocessingPipeline sts h =
     \<lparr>stages = sts, is_shutdown = False, wi_to_wifut = [], pl_worker_future = None,
      input_queue_fut = None, pl_input_queue = [], plfut_to_wi = Map.empty,
      running_wi_contexts = [], fut_to_pipe_conn = Map.empty,
      was_graceful_shutdown = False, anomalies = [],
      thread_exec_shutdown = False, process_exec_shutdown = False,
      process_exec2_shutdown = False,
      heap = h, futs = (\<lambda>f. Pending), next_fut = 0,
      conn_close_calls = (\<lambda>c. 0), next_conn = 0, submissions = []\<rparr>"

definition num_stages :: "pipeline \<Rightarrow> int" where
  "num_stages st = int (length (stages st))"

text \<open>\<^verbatim>\<open>self._stages[i]\<close>: a negative index counts from the end, any other index out
  of range raises \<^verbatim>\<open>IndexError\<close>.\<close>

definition stages_at :: "pipeline \<Rightarrow> int \<Rightarrow> exc + stage" where
  "stages_at st i =
     (if 0 \<le> i \<and> i < num_stages st then Inr (stages st ! nat i)
      else if - num_stages st \<le> i \<and> i < 0 then Inr (stages st ! nat (num_stages st + i))
      else Inl IndexError)"

definition new_Future :: "fut pl" where
  "new_Future st = (Returns (next_fut st), st\<lparr>next_fut := Suc (next_fut st)\<rparr>)"

definition fut_done :: "pipeline \<Rightarrow> fut \<Rightarrow> bool" where
  "fut_done st f = (futs st f \<noteq> Pending)"

definition set_result :: "fut \<Rightarrow> fut_value \<Rightarrow> unit pl" where
  "set_result f v st =
     (if futs st f = Pending then (Returns (), st\<lparr>futs := (futs st)(f := Done_Result v)\<rparr>)
      else (Raises FutureInvalidStateError, st))"

definition set_exception :: "fut \<Rightarrow> exc \<Rightarrow> unit pl" where
  "set_exception f e st =
     (if futs st f = Pending then (Returns (), st\<lparr>futs := (futs st)(f := Done_Exception e)\<rparr>)
      else (Raises FutureInvalidStateError, st))"

definition executor_is_shutdown :: "pipeline \<Rightarrow> executor \<Rightarrow> bool" where
  "executor_is_shutdown st ex =
     (case ex of
        ThreadExec \<Rightarrow> thread_exec_shutdown st
      | ProcessExec \<Rightarrow> process_exec_shutdown st
      | ProcessExec2 \<Rightarrow> process_exec2_shutdown st)"

definition executor_submit :: "executor \<Rightarrow> fut pl" where
  "executor_submit ex st =
     (if executor_is_shutdown st ex
      then (Raises (RuntimeError ''cannot schedule new futures after shutdown''), st)
      else new_Future st)"

definition is_wi_still_running :: "pipeline \<Rightarrow> wi_ref \<Rightarrow> bool" where
  "is_wi_still_running st wi =
     (case map_of (running_wi_contexts st) wi of
        None \<Rightarrow> False
      | Some wi_contexts \<Rightarrow> length wi_contexts > 0)"

definition track_running_pipeline_work :: "int \<Rightarrow> fut \<Rightarrow> wi_ref \<Rightarrow> unit pl" where
  "track_running_pipeline_work stage_no f wi st =
     (if plfut_to_wi st f \<noteq> None then (Raises InvalidStateError, st)
      else
        (let wi_contexts = (case map_of (running_wi_contexts st) wi of
                              None \<Rightarrow> [] | Some l \<Rightarrow> l)
         in (Returns (),
             st\<lparr>plfut_to_wi := (plfut_to_wi st)(f \<mapsto> wi),
                running_wi_contexts :=
                  AList.update wi
                    (wi_contexts @ [\<lparr>ctx_cur_stage = stage_no, ctx_fut = f, ctx_wi = wi\<rparr>])
                    (running_wi_contexts st)\<rparr>)))"

text \<open>
  \<^verbatim>\<open>_get_completed_work_item_info\<close>.  The \<^verbatim>\<open>for c in list(wi_contexts)\<close> loop
  leaves \<open>c\<close> at the context it removed, or at the last context when none has the
  future, or at \<open>None\<close> when the list is empty.
\<close>

definition get_completed_work_item_info :: "fut \<Rightarrow> (wi_ref \<times> ctx) pl" where
  "get_completed_work_item_info f st =
     (case plfut_to_wi st f of
        None \<Rightarrow> (Raises InvalidStateError, st)
      | Some wi \<Rightarrow>
          (let st1 = st\<lparr>plfut_to_wi := (plfut_to_wi st)(f := None)\<rparr> in
           case map_of (running_wi_contexts st1) wi of
             None \<Rightarrow> (Raises InvalidStateError, st1)
           | Some wi_contexts \<Rightarrow>
               (let found = find (\<lambda>c. ctx_fut c = f) wi_contexts;
                    c = (case found of
                           Some c \<Rightarrow> Some c
                         | None \<Rightarrow> (if wi_contexts = [] then None else Some (last wi_contexts)));
                    wi_contexts1 = (case found of
                           Some c \<Rightarrow> remove1 c wi_contexts
                         | None \<Rightarrow> wi_contexts);
                    st2 = st1\<lparr>running_wi_contexts :=
                             (if length wi_contexts1 = 0
                              then AList.delete wi (running_wi_contexts st1)
                              else AList.update wi wi_contexts1 (running_wi_contexts st1))\<rparr>
                in case c of
                     None \<Rightarrow> (Raises InvalidStateError, st2)
                   | Some c \<Rightarrow> (Returns (wi, c), st2))))"

definition get_queued_wi :: "(wi_ref option \<times> bool) pl" where
  "get_queued_wi st =
     (case pl_input_queue st of
        [] \<Rightarrow> (Returns (None, False), st)
      | wi # rest \<Rightarrow> (Returns (wi, wi = None), st\<lparr>pl_input_queue := rest\<rparr>))"

text \<open>
  \<^verbatim>\<open>_handle_completed_fut\<close>.  \<^verbatim>\<open>Future.exception()\<close> waits on a future that is not
  done.  The \<^verbatim>\<open>queue.Empty\<close> handler of \<^verbatim>\<open>_get_queued_wi\<close> is unreachable (the
  size is tested under the lock and only the controller takes from the queue) and is
  left out.
\<close>

definition handle_completed_fut :: "fut \<Rightarrow> (wi_ref option \<times> bool) pl" where
  "handle_completed_fut done_fut st =
     (if plfut_to_wi st done_fut \<noteq> None then
        (case get_completed_work_item_info done_fut st of
           (Returns (wi, c), st1) \<Rightarrow>
             (case futs st1 done_fut of
                Pending \<Rightarrow> (Blocks, st1)
              | Done_Exception e \<Rightarrow>
                  (Returns (Some wi, False),
                   st1\<lparr>heap := stage_complete (heap st1) wi (ctx_cur_stage c) wi (Some e)\<rparr>)
              | Done_Result (ValOther v) \<Rightarrow>
                  (Returns (Some wi, False),
                   st1\<lparr>heap := stage_complete (heap st1) wi (ctx_cur_stage c) wi
                                  (Some PipelineResultIsNotPipelineWorkItem)\<rparr>)
              | Done_Result (ValWorkItem wi_from_sp) \<Rightarrow>
                  (Returns (Some wi, False),
                   st1\<lparr>heap := stage_complete (heap st1) wi (ctx_cur_stage c) wi_from_sp None\<rparr>))
         | (Raises e, st1) \<Rightarrow> (Raises e, st1)
         | (Blocks, st1) \<Rightarrow> (Blocks, st1))
      else if Some done_fut = input_queue_fut st then get_queued_wi st
      else get_queued_wi (st\<lparr>anomalies := anomalies st @ [InvalidStateError]\<rparr>))"

definition cleanup_pipe_connections :: "fut \<Rightarrow> pipeline \<Rightarrow> pipeline" where
  "cleanup_pipe_connections done_fut st =
     (case fut_to_pipe_conn st done_fut of
        None \<Rightarrow> st
      | Some cn \<Rightarrow>
          st\<lparr>conn_close_calls := (conn_close_calls st)(cn := Suc (conn_close_calls st cn)),
             fut_to_pipe_conn := (fut_to_pipe_conn st)(done_fut := None)\<rparr>)"

definition merge_kwargs :: "stage \<Rightarrow> work_item \<Rightarrow> (string \<times> pyval) list" where
  "merge_kwargs s stage_wi_copy =
     (case user_kwargs stage_wi_copy of
        None \<Rightarrow> stage_kwargs s
      | Some kw \<Rightarrow> fold (\<lambda>(k, v). AList.update k v) kw (stage_kwargs s))"

definition submit_to_stage :: "stage \<Rightarrow> wi_ref \<Rightarrow> conn_id option \<Rightarrow> bool \<Rightarrow> fut pl" where
  "submit_to_stage s wi pc use_second_pool st =
     (let stage_wi_copy = (heap st wi)\<lparr>pipe_conn := pc\<rparr>;
          kwargs = merge_kwargs s stage_wi_copy
      in case is_subprocess s of
           Inl e \<Rightarrow> (Raises e, st)
         | Inr sp \<Rightarrow>
             (let ex = (if sp then (if \<not> use_second_pool then ProcessExec else ProcessExec2)
                        else ThreadExec)
              in and_then (executor_submit ex)
                   (\<lambda>f st1.
                      and_then (track_running_pipeline_work (cur_stage (heap st1 wi)) f wi)
                        (\<lambda>u st2. (Returns f, st2))
                        (st1\<lparr>submissions := submissions st1 @
                               [\<lparr>sub_executor = ex, sub_stage = s, sub_item = stage_wi_copy,
                                 sub_kwargs = kwargs, sub_fut = f\<rparr>]\<rparr>))
                   st))"

definition is_stage_for_work_item :: "wi_ref \<Rightarrow> int option \<Rightarrow> bool pl" where
  "is_stage_for_work_item wi stage_num st =
     (let n = (case stage_num of None \<Rightarrow> cur_stage (heap st wi) | Some k \<Rightarrow> k)
      in case stages_at st n of
           Inl e \<Rightarrow> (Raises e, st)
         | Inr next_stage \<Rightarrow>
             (case is_for_stage next_stage (heap st wi) of
                Inr b \<Rightarrow> (Returns b, st)
              | Inl ex \<Rightarrow>
                  (Returns False,
                   st\<lparr>heap := (heap st)(wi := append_exception (heap st wi) ex)\<rparr>)))"

text \<open>The statement \<^verbatim>\<open>if wi.is_failed: wi.cur_stage = self.num_stages\<close>, which the two
  submission functions repeat after each refused predicate.\<close>

definition past_last_stage_if_failed :: "wi_ref \<Rightarrow> pipeline \<Rightarrow> pipeline" where
  "past_last_stage_if_failed wi st =
     (if is_failed (heap st wi)
      then st\<lparr>heap := (heap st)(wi := (heap st wi)\<lparr>cur_stage := num_stages st\<rparr>)\<rparr>
      else st)"

definition try_submit_to_stage :: "wi_ref \<Rightarrow> bool pl" where
  "try_submit_to_stage wi =
     and_then (is_stage_for_work_item wi None)
       (\<lambda>wanted st.
          if \<not> wanted then (Returns False, past_last_stage_if_failed wi st)
          else case stages_at st (cur_stage (heap st wi)) of
                 Inl e \<Rightarrow> (Raises e, st)
               | Inr s \<Rightarrow>
                   and_then (submit_to_stage s wi None False)
                     (\<lambda>f st1.
                        (Returns True,
                         st1\<lparr>heap := (heap st1)(wi := increment_stage (heap st1 wi))\<rparr>))
                     st)"

definition try_submit_to_dual_stage_with_pipe :: "wi_ref \<Rightarrow> bool pl" where
  "try_submit_to_dual_stage_with_pipe wi st =
     (if cur_stage (heap st wi) = num_stages st - 1 then (Raises PipelineLastStageError, st)
      else
        and_then (is_stage_for_work_item wi (Some (cur_stage (heap st wi))))
          (\<lambda>wanted st1.
             if \<not> wanted then (Returns False, past_last_stage_if_failed wi st1)
             else
               and_then (is_stage_for_work_item wi (Some (cur_stage (heap st1 wi) + 1)))
                 (\<lambda>wanted_next st2.
                    if \<not> wanted_next then (Returns False, past_last_stage_if_failed wi st2)
                    else
                      (let conn_r = next_conn st2;
                           conn_w = Suc (next_conn st2);
                           st3 = st2\<lparr>next_conn := next_conn st2 + 2\<rparr>
                       in case stages_at st3 (cur_stage (heap st3 wi)) of
                            Inl e \<Rightarrow> (Raises e, st3)
                          | Inr next_stage \<Rightarrow>
                              and_then (submit_to_stage next_stage wi (Some conn_w) False)
                                (\<lambda>fut_w st4.
                                   (let st5 = st4\<lparr>heap := (heap st4)
                                                 (wi := increment_stage (heap st4 wi))\<rparr>
                                    in case stages_at st5 (cur_stage (heap st5 wi)) of
                                         Inl e \<Rightarrow> (Raises e, st5)
                                       | Inr reader_stage \<Rightarrow>
                                           and_then
                                             (submit_to_stage reader_stage wi (Some conn_r) True)
                                             (\<lambda>fut_r st6.
                                                (Returns True,
                                                 st6\<lparr>heap := (heap st6)
                                                        (wi := increment_stage (heap st6 wi)),
                                                     fut_to_pipe_conn :=
                                                       (fut_to_pipe_conn st6)
                                                         (fut_w \<mapsto> conn_w, fut_r \<mapsto> conn_r)\<rparr>))
                                             st5))
                                st3))
                 st1)
          st)"

definition set_wi_to_finished :: "wi_ref \<Rightarrow> unit pl" where
  "set_wi_to_finished wi st =
     (if is_wi_still_running st wi then (Raises InvalidStateError, st)
      else case map_of (wi_to_wifut st) (Some wi) of
             None \<Rightarrow> (Raises InvalidStateError, st)
           | Some f \<Rightarrow>
               set_result f (ValWorkItem wi)
                 (st\<lparr>wi_to_wifut := AList.delete (Some wi) (wi_to_wifut st)\<rparr>))"

text \<open>A refused submission that leaves the item unfailed leaves the whole state as it
  was; this is what makes the advancement loop terminate.\<close>

lemma is_stage_for_work_item_frame:
  assumes "is_stage_for_work_item wi k st = (r, st1)"
  shows "stages st1 = stages st"
    and "cur_stage (heap st1 wi) = cur_stage (heap st wi)"
    and "r = Returns False \<Longrightarrow> \<not> is_failed (heap st1 wi) \<Longrightarrow> st1 = st"
  using assms
  by (auto simp: is_stage_for_work_item_def Let_def append_exception_def is_failed_def
      split: sum.splits option.splits)

lemma past_last_stage_if_failed_unfailed:
  "\<not> is_failed (heap (past_last_stage_if_failed wi st) wi) \<Longrightarrow> past_last_stage_if_failed wi st = st"
  by (auto simp: past_last_stage_if_failed_def is_failed_def)

lemma try_submit_to_stage_declined:
  assumes "try_submit_to_stage wi st = (Returns False, st1)" and "\<not> is_failed (heap st1 wi)"
  shows "st1 = st"
proof -
  obtain r st0 where a: "is_stage_for_work_item wi None st = (r, st0)"
    by (cases "is_stage_for_work_item wi None st")
  from assms(1) a have r: "r = Returns False" and s: "st1 = past_last_stage_if_failed wi st0"
    by (auto simp: try_submit_to_stage_def and_then_def
        split: outcome.splits if_splits sum.splits prod.splits)
  from s assms(2) have "st1 = st0"
    using past_last_stage_if_failed_unfailed by metis
  with is_stage_for_work_item_frame(3) [OF a r] assms(2) show ?thesis by simp
qed

lemma try_submit_to_dual_stage_with_pipe_declined:
  assumes "try_submit_to_dual_stage_with_pipe wi st = (Returns False, st1)"
    and "\<not> is_failed (heap st1 wi)"
  shows "st1 = st"
proof -
  let ?k = "cur_stage (heap st wi)"
  from assms(1) have nl: "?k \<noteq> num_stages st - 1"
    by (auto simp: try_submit_to_dual_stage_with_pipe_def)
  obtain r sa where a: "is_stage_for_work_item wi (Some ?k) st = (r, sa)"
    by (cases "is_stage_for_work_item wi (Some ?k) st")
  show ?thesis
  proof (cases "r = Returns True")
    case False
    with assms(1) nl a have r: "r = Returns False" and s: "st1 = past_last_stage_if_failed wi sa"
      by (auto simp: try_submit_to_dual_stage_with_pipe_def and_then_def
          split: outcome.splits if_splits)
    from s assms(2) have "st1 = sa"
      using past_last_stage_if_failed_unfailed by metis
    with is_stage_for_work_item_frame(3) [OF a r] assms(2) show ?thesis by simp
  next
    case True
    with a have sa: "sa = st"
      by (auto simp: is_stage_for_work_item_def Let_def split: sum.splits option.splits)
    obtain r2 sb where b: "is_stage_for_work_item wi (Some (?k + 1)) st = (r2, sb)"
      by (cases "is_stage_for_work_item wi (Some (?k + 1)) st")
    from assms(1) nl a True sa b
    have r2: "r2 = Returns False" and s: "st1 = past_last_stage_if_failed wi sb"
      by (auto simp: try_submit_to_dual_stage_with_pipe_def and_then_def Let_def
          split: outcome.splits if_splits sum.splits prod.splits)
    from s assms(2) have "st1 = sb"
      using past_last_stage_if_failed_unfailed by metis
    with is_stage_for_work_item_frame(3) [OF b r2] assms(2) show ?thesis by simp
  qed
qed

text \<open>The \<^verbatim>\<open>while wi.cur_stage < self.num_stages\<close> loop of
  \<^verbatim>\<open>_handle_stages_for_wi\<close>.\<close>

function stages_loop :: "wi_ref \<Rightarrow> pipeline \<Rightarrow> unit outcome \<times> pipeline" where
  "stages_loop wi st =
     (if cur_stage (heap st wi) < num_stages st then
        (case stages_at st (cur_stage (heap st wi)) of
           Inl e \<Rightarrow> (Raises e, st)
         | Inr next_stage \<Rightarrow>
             (case (if is_pipe_with_next_stage next_stage
                    then try_submit_to_dual_stage_with_pipe wi st
                    else try_submit_to_stage wi st) of
                (Returns submitted, st1) \<Rightarrow>
                  (if submitted then (Returns (), st1)
                   else if is_failed (heap st1 wi) then (Returns (), st1)
                   else stages_loop wi
                          (st1\<lparr>heap := (heap st1)(wi := increment_stage (heap st1 wi))\<rparr>))
              | (Raises e, st1) \<Rightarrow> (Raises e, st1)
              | (Blocks, st1) \<Rightarrow> (Blocks, st1)))
      else (Returns (), st))"
  by pat_completeness auto
termination
proof (relation "measure (\<lambda>(wi, st). nat (num_stages st - cur_stage (heap st wi)))", goal_cases)
  case 1
  show ?case by simp
next
  case (2 wi st next_stage r st1 submitted)
  then have "st1 = st"
    using try_submit_to_stage_declined try_submit_to_dual_stage_with_pipe_declined
    by (metis (full_types))
  with 2 show ?case
    by (simp add: increment_stage_def num_stages_def)
qed

declare stages_loop.simps [simp del]

definition handle_stages_for_wi :: "wi_ref \<Rightarrow> unit pl" where
  "handle_stages_for_wi wi st =
     (if cur_stage (heap st wi) < 0 \<or> cur_stage (heap st wi) > num_stages st then
        set_wi_to_finished wi
          (st\<lparr>heap := (heap st)
                 (wi := (append_exception (heap st wi) InvalidStateError)
                          \<lparr>cur_stage := num_stages st\<rparr>)\<rparr>)
      else
        and_then (stages_loop wi)
          (\<lambda>u st1.
             if \<not> is_wi_still_running st1 wi \<and> cur_stage (heap st1 wi) \<ge> num_stages st1
             then set_wi_to_finished wi st1
             else (Returns (), st1))
          st)"

text \<open>
  \<^verbatim>\<open>_get_all_wi_futs\<close>: the loop over the values of \<open>running_wi_contexts\<close>, with
  \<^verbatim>\<open>fut.done()\<close> read from the state the scan runs in.
\<close>

fun scan_contexts ::
  "ctx list list \<Rightarrow> fut list \<Rightarrow> fut list \<Rightarrow> pipeline \<Rightarrow> (fut list \<times> fut list) \<times> pipeline" where
  "scan_contexts [] done_futs pending_futs st = ((done_futs, pending_futs), st)"
| "scan_contexts (wi_contexts # rest) done_futs pending_futs st =
     (let ctx_futs = map ctx_fut wi_contexts;
          ctx_done_futs = filter (fut_done st) ctx_futs;
          ctx_pending_futs = filter (\<lambda>f. f \<notin> set ctx_done_futs) ctx_futs;
          st1 = fold cleanup_pipe_connections ctx_done_futs st
      in if ctx_pending_futs = []
         then scan_contexts rest (done_futs @ ctx_futs) pending_futs st1
         else scan_contexts rest done_futs (pending_futs @ ctx_pending_futs) st1)"

definition get_all_wi_futs :: "pipeline \<Rightarrow> (fut list \<times> fut list) \<times> pipeline" where
  "get_all_wi_futs st = scan_contexts (map snd (running_wi_contexts st)) [] [] st"

definition renew_input_queue_future :: "unit pl" where
  "renew_input_queue_future =
     and_then new_Future
       (\<lambda>f st.
          (let st1 = st\<lparr>input_queue_fut := Some f\<rparr>;
               qsize = length (pl_input_queue st1)
           in if qsize > 0 then set_result f (ValOther (PyInt (int qsize))) st1
              else (Returns (), st1)))"

text \<open>
  The body of \<^verbatim>\<open>_pl_worker\<close>.  \<open>wi_needing_attention\<close> is a Python set of work
  items; it is kept as a duplicate-free list in the order the items were added.
  \<open>pl_worker_iteration\<close> is one pass of the outer loop up to the point where it
  either has something settled to process or waits; \<open>pl_worker_after_wait\<close> is the
  inner loop's pass after \<^verbatim>\<open>concurrent.futures.wait\<close> has returned.
\<close>

fun handle_done_futs :: "fut list \<Rightarrow> wi_ref list \<Rightarrow> bool \<Rightarrow> (wi_ref list \<times> bool) pl" where
  "handle_done_futs [] wi_needing_attention is_sd st =
     (Returns (wi_needing_attention, is_sd), st)"
| "handle_done_futs (done_fut # rest) wi_needing_attention is_sd st =
     (case handle_completed_fut done_fut st of
        (Returns (wi, sd), st1) \<Rightarrow>
          handle_done_futs rest
            (case wi of
               None \<Rightarrow> wi_needing_attention
             | Some w \<Rightarrow> (if w \<in> set wi_needing_attention then wi_needing_attention
                          else wi_needing_attention @ [w]))
            (is_sd \<or> sd) st1
      | (Raises e, st1) \<Rightarrow> (Raises e, st1)
      | (Blocks, st1) \<Rightarrow> (Blocks, st1))"

fun check_completed :: "wi_ref list \<Rightarrow> unit pl" where
  "check_completed [] st = (Returns (), st)"
| "check_completed (wi # rest) st =
     (if is_wi_still_running st wi then check_completed rest st
      else case (if is_failed (heap st wi) then set_wi_to_finished wi st
                 else handle_stages_for_wi wi st) of
             (Returns u, st1) \<Rightarrow> check_completed rest st1
           | (Raises e, st1) \<Rightarrow> (Raises e, st1)
           | (Blocks, st1) \<Rightarrow> (Blocks, st1))"

datatype loop_status = Continue | Break

definition pl_worker_process :: "fut list \<Rightarrow> loop_status pl" where
  "pl_worker_process done_futs =
     and_then (handle_done_futs done_futs [] False)
       (\<lambda>(wi_needing_attention, is_sd) st.
          if is_sd then (Returns Break, st)
          else and_then (check_completed wi_needing_attention)
                 (\<lambda>u st1. (Returns Continue, st1)) st)"

definition with_input_queue_fut :: "pipeline \<Rightarrow> fut list \<Rightarrow> fut list" where
  "with_input_queue_fut st done_futs =
     (case input_queue_fut st of
        Some f \<Rightarrow> (if fut_done st f then done_futs @ [f] else done_futs)
      | None \<Rightarrow> done_futs)"

definition pl_worker_iteration :: "loop_status pl" where
  "pl_worker_iteration st =
     (case get_all_wi_futs st of
        ((done_futs, pending_futs), st1) \<Rightarrow>
          and_then renew_input_queue_future
            (\<lambda>u st2.
               (let done_futs1 = with_input_queue_fut st2 done_futs
                in if done_futs1 = [] then (Blocks, st2)
                   else pl_worker_process done_futs1 st2))
            st1)"

definition pl_worker_after_wait :: "loop_status pl" where
  "pl_worker_after_wait st =
     (case get_all_wi_futs st of
        ((done_futs, pending_futs), st1) \<Rightarrow>
          (let done_futs1 = with_input_queue_fut st1 done_futs
           in if done_futs1 = [] then (Blocks, st1)
              else pl_worker_process done_futs1 st1))"

text \<open>
  \<^verbatim>\<open>_fail_all_pending\<close> and the \<^verbatim>\<open>try\<close>/\<^verbatim>\<open>except\<close> of \<^verbatim>\<open>_pl_worker\<close>.  The
  controller runs as a task of the thread pool, so its return or its exception
  completes \<open>pl_worker_future\<close>.
\<close>

fun fail_all_loop :: "(wi_ref option \<times> fut) list \<Rightarrow> exc \<Rightarrow> unit pl" where
  "fail_all_loop [] ex st = (Returns (), st)"
| "fail_all_loop ((wi, wifut) # rest) ex st =
     (if fut_done st wifut then fail_all_loop rest ex st
      else case wi of
             None \<Rightarrow> (Raises AttributeError, st)
           | Some w \<Rightarrow>
               (case set_exception wifut ex
                       (st\<lparr>heap := (heap st)(w := append_exception (heap st w) ex)\<rparr>) of
                  (Returns u, st1) \<Rightarrow> fail_all_loop rest ex st1
                | (Raises e, st1) \<Rightarrow> (Raises e, st1)
                | (Blocks, st1) \<Rightarrow> (Blocks, st1)))"

definition fail_all_pending :: "exc \<Rightarrow> unit pl" where
  "fail_all_pending ex st = fail_all_loop (wi_to_wifut st) ex st"

definition worker_future_done :: "fut_state \<Rightarrow> pipeline \<Rightarrow> pipeline" where
  "worker_future_done r st =
     (case pl_worker_future st of
        None \<Rightarrow> st
      | Some f \<Rightarrow> st\<lparr>futs := (futs st)(f := r)\<rparr>)"

definition pl_worker_guard :: "loop_status outcome \<times> pipeline \<Rightarrow> loop_status outcome \<times> pipeline" where
  "pl_worker_guard r =
     (case r of
        (Returns Continue, st) \<Rightarrow> (Returns Continue, st)
      | (Returns Break, st) \<Rightarrow>
          (Returns Break,
           worker_future_done (Done_Result (ValOther PyNone)) (st\<lparr>was_graceful_shutdown := True\<rparr>))
      | (Blocks, st) \<Rightarrow> (Blocks, st)
      | (Raises ex, st) \<Rightarrow>
          (case fail_all_pending ex st of
             (Raises ex2, st1) \<Rightarrow> (Raises ex2, worker_future_done (Done_Exception ex2) st1)
           | (r2, st1) \<Rightarrow> (Raises ex, worker_future_done (Done_Exception ex) st1)))"

definition pl_worker_step :: "loop_status pl" where
  "pl_worker_step st = pl_worker_guard (pl_worker_iteration st)"

definition pl_worker_resume :: "loop_status pl" where
  "pl_worker_resume st = pl_worker_guard (pl_worker_after_wait st)"

definition start :: "unit pl" where
  "start st =
     (if is_shutdown st then (Raises InvalidFunctionArgument, st)
      else if pl_worker_future st \<noteq> None then (Returns (), st)
      else and_then (executor_submit ThreadExec)
             (\<lambda>f st1. (Returns (), st1\<lparr>pl_worker_future := Some f\<rparr>)) st)"

definition internal_submit :: "wi_ref option \<Rightarrow> fut pl" where
  "internal_submit work_item =
     and_then start
       (\<lambda>u. and_then new_Future
          (\<lambda>wi_fut st.
             (let st1 = st\<lparr>wi_to_wifut := AList.update work_item wi_fut (wi_to_wifut st),
                           pl_input_queue := pl_input_queue st @ [work_item]\<rparr>;
                  qsize = length (pl_input_queue st1)
              in if qsize > 0 then
                   (case input_queue_fut st1 of
                      None \<Rightarrow> (Returns wi_fut, st1)
                    | Some f \<Rightarrow>
                        (if \<not> fut_done st1 f
                         then and_then (set_result f (ValOther (PyInt (int qsize))))
                                (\<lambda>u st2. (Returns wi_fut, st2)) st1
                         else (Returns wi_fut, st1)))
                 else (Returns wi_fut, st1))))"

definition submit :: "wi_ref option \<Rightarrow> fut pl" where
  "submit work_item st =
     (if work_item = None then (Raises InvalidFunctionArgument, st)
      else if map_of (wi_to_wifut st) work_item \<noteq> None
      then (Raises InvalidFunctionArgument, st)
      else internal_submit work_item st)"

text \<open>
  \<^verbatim>\<open>shutdown\<close>: \<open>shutdown_begin\<close> is the wait for the submitted-items table to
  drain followed by \<^verbatim>\<open>_internal_submit(None)\<close>; \<open>shutdown_join\<close> is
  \<^verbatim>\<open>self._pl_worker_future.result()\<close> and what follows it.
\<close>

definition shutdown_begin :: "unit pl" where
  "shutdown_begin st =
     (if length (wi_to_wifut st) > 0 then (Blocks, st)
      else and_then (internal_submit None) (\<lambda>f st1. (Returns (), st1)) st)"

definition executor_shutdown :: "executor \<Rightarrow> pipeline \<Rightarrow> pipeline" where
  "executor_shutdown ex st =
     (case ex of
        ThreadExec \<Rightarrow> st\<lparr>thread_exec_shutdown := True\<rparr>
      | ProcessExec \<Rightarrow> st\<lparr>process_exec_shutdown := True\<rparr>
      | ProcessExec2 \<Rightarrow> st\<lparr>process_exec2_shutdown := True\<rparr>)"

definition shutdown_join :: "unit pl" where
  "shutdown_join st =
     (case pl_worker_future st of
        None \<Rightarrow> (Raises AttributeError, st)
      | Some f \<Rightarrow>
          (case futs st f of
             Pending \<Rightarrow> (Blocks, st)
           | Done_Exception e \<Rightarrow> (Raises e, st)
           | Done_Result v \<Rightarrow>
               (Returns (),
                executor_shutdown ThreadExec
                  (executor_shutdown ProcessExec (st\<lparr>pl_worker_future := None\<rparr>)))))"

definition shutdown :: "unit pl" where
  "shutdown st =
     (if pl_worker_future st = None then (Returns (), st)
      else and_then shutdown_begin (\<lambda>u. shutdown_join) st)"

section \<open>The advancement loop past declined stages\<close>

text \<open>
  \<open>skip_declined n wi st\<close> runs the first \<open>n\<close> iterations of the advancement loop
  \<open>stages_loop\<close> as long as each of them ends in \<^verbatim>\<open>wi.increment_stage()\<close>, that is,
  the stage (or stage pair) was asked, nothing was submitted and the item did not fail.
  It yields the state in which iteration \<open>n + 1\<close> starts, or \<open>None\<close> if the loop
  has ended before.
\<close>

fun skip_declined :: "nat \<Rightarrow> wi_ref \<Rightarrow> pipeline \<Rightarrow> pipeline option" where
  "skip_declined 0 wi st = Some st"
| "skip_declined (Suc n) wi st =
     (if cur_stage (heap st wi) < num_stages st then
        (case stages_at st (cur_stage (heap st wi)) of
           Inl e \<Rightarrow> None
         | Inr next_stage \<Rightarrow>
             (case (if is_pipe_with_next_stage next_stage
                    then try_submit_to_dual_stage_with_pipe wi st
                    else try_submit_to_stage wi st) of
                (Returns submitted, st1) \<Rightarrow>
                  (if submitted then None
                   else if is_failed (heap st1 wi) then None
                   else skip_declined n wi
                          (st1\<lparr>heap := (heap st1)(wi := increment_stage (heap st1 wi))\<rparr>))
              | (Raises e, st1) \<Rightarrow> None
              | (Blocks, st1) \<Rightarrow> None))
      else None)"

section \<open>A run of a one-stage pipeline whose worker raises\<close>

definition accept_all :: "work_item \<Rightarrow> exc + bool" where
  "accept_all w = Inr True"

definition thread_stage :: stage where
  "thread_stage =
     \<lparr>stage_class = ThreadPipelineStage, fn_determiner = Some accept_all,
      stage_kwargs = [], is_pipe_with_next_stage = False\<rparr>"

definition item_x :: work_item where
  "item_x = new_PipelineWorkItem (PyStr ''x'') True []"

definition boom :: exc where
  "boom = RuntimeError ''boom''"

text \<open>
  The pipeline has the single stage \<open>thread_stage\<close>; the work item is object 0.
  The caller submits it (future 1 is the completion handle, future 0 the controller's
  own), the controller takes it from the queue and hands it to the thread pool
  (future 3), finds nothing settled and waits; the worker raises \<open>boom\<close>; the controller
  wakes up and processes the failed future.  Then the caller shuts the pipeline down.
\<close>

definition s3_init :: pipeline where
  "s3_init = new_MultiprocessingPipeline [thread_stage] (\<lambda>r. item_x)"

definition s3_submitted :: pipeline where
  "s3_submitted = snd (submit (Some 0) s3_init)"

definition s3_dispatched :: pipeline where
  "s3_dispatched = snd (pl_worker_step s3_submitted)"

definition s3_waiting :: pipeline where
  "s3_waiting = snd (pl_worker_step s3_dispatched)"

definition s3_worker_raised :: pipeline where
  "s3_worker_raised = s3_waiting\<lparr>futs := (futs s3_waiting)(3 := Done_Exception boom)\<rparr>"

definition s3_finalized :: pipeline where
  "s3_finalized = snd (pl_worker_resume s3_worker_raised)"

definition s3_shutdown_requested :: pipeline where
  "s3_shutdown_requested = snd (shutdown s3_finalized)"

definition s3_controller_exited :: pipeline where
  "s3_controller_exited = snd (pl_worker_resume s3_shutdown_requested)"

definition s3_shut_down :: pipeline where
  "s3_shut_down = snd (shutdown_join s3_controller_exited)"

section \<open>Runs that stop at a raising predicate and at a paired last stage\<close>

definition decline_all :: "work_item \<Rightarrow> exc + bool" where
  "decline_all w = Inr False"

definition bad_predicate :: exc where
  "bad_predicate = RuntimeError ''bad predicate''"

definition raise_bad :: "work_item \<Rightarrow> exc + bool" where
  "raise_bad w = Inl bad_predicate"

definition declining_stage :: stage where
  "declining_stage =
     \<lparr>stage_class = ThreadPipelineStage, fn_determiner = Some decline_all,
      stage_kwargs = [], is_pipe_with_next_stage = False\<rparr>"

definition raising_stage :: stage where
  "raising_stage =
     \<lparr>stage_class = ThreadPipelineStage, fn_determiner = Some raise_bad,
      stage_kwargs = [], is_pipe_with_next_stage = False\<rparr>"

definition pairing_stage :: stage where
  "pairing_stage =
     \<lparr>stage_class = SubprocessPipelineStage, fn_determiner = Some accept_all,
      stage_kwargs = [], is_pipe_with_next_stage = True\<rparr>"

text \<open>
  In both runs work item 0 has been submitted (completion handle: future 1) and the
  controller has not run yet; \<open>\<dots>_asked\<close> is the state after the first stage has
  declined the item.
\<close>

definition s7_submitted :: pipeline where
  "s7_submitted =
     snd (submit (Some 0)
            (new_MultiprocessingPipeline [declining_stage, raising_stage, thread_stage]
               (\<lambda>r. item_x)))"

definition s7_asked :: pipeline where
  "s7_asked =
     s7_submitted\<lparr>heap := (heap s7_submitted)(0 := (heap s7_submitted 0)\<lparr>cur_stage := 1\<rparr>)\<rparr>"

definition s8_submitted :: pipeline where
  "s8_submitted =
     snd (submit (Some 0)
            (new_MultiprocessingPipeline [declining_stage, pairing_stage] (\<lambda>r. item_x)))"

definition s8_asked :: pipeline where
  "s8_asked =
     s8_submitted\<lparr>heap := (heap s8_submitted)(0 := (heap s8_submitted 0)\<lparr>cur_stage := 1\<rparr>)\<rparr>"

section \<open>Consistency of the controller's tables\<close>

text \<open>
  The controller keeps two tables about the stage executions it has submitted:
  \<^verbatim>\<open>_running_wi_contexts\<close>, from a work item to the contexts of its outstanding
  executions, and \<^verbatim>\<open>_fut_to_pipe_conn\<close>, from the future of an execution to the
  channel endpoint the controller has to close for it.  The predicates of this section
  describe the states in which these tables are consistent; they are properties of states,
  not code of the program.

  \<open>contexts_of\<close> reads the first table with the empty list for an absent item, and a future is
  \<open>tracked\<close> when it is the future of some outstanding context.
\<close>

definition contexts_of :: "pipeline \<Rightarrow> wi_ref \<Rightarrow> ctx list" where
  "contexts_of st wi =
     (case map_of (running_wi_contexts st) wi of None \<Rightarrow> [] | Some l \<Rightarrow> l)"

definition tracked :: "pipeline \<Rightarrow> fut \<Rightarrow> bool" where
  "tracked st f =
     (\<exists>w cs. map_of (running_wi_contexts st) w = Some cs \<and> f \<in> ctx_fut ` set cs)"

text \<open>
  The table of outstanding contexts is well formed when no item has two entries, the
  contexts of one item have distinct futures and strictly increasing stage numbers, every
  future in it has been allocated, and no future belongs to two items.
\<close>

definition ctx_inv :: "pipeline \<Rightarrow> bool" where
  "ctx_inv st =
     (distinct (map fst (running_wi_contexts st)) \<and>
      (\<forall>w cs. map_of (running_wi_contexts st) w = Some cs \<longrightarrow>
         distinct (map ctx_fut cs) \<and>
         sorted_wrt (<) (map ctx_cur_stage cs) \<and>
         (\<forall>c \<in> set cs. ctx_fut c < next_fut st)) \<and>
      (\<forall>w w' cs cs'. w \<noteq> w' \<and> map_of (running_wi_contexts st) w = Some cs \<and>
         map_of (running_wi_contexts st) w' = Some cs' \<longrightarrow>
         ctx_fut ` set cs \<inter> ctx_fut ` set cs' = {}))"

text \<open>
  The table of endpoints is well formed when every recorded endpoint has been allocated and
  has not been closed, belongs to an allocated future that is outstanding, no endpoint is
  recorded for two futures, no endpoint has been closed more than once, endpoints not yet
  allocated have never been closed, and the future of the input queue has no endpoint.
\<close>

definition conn_inv :: "pipeline \<Rightarrow> bool" where
  "conn_inv st =
     ((\<forall>f c. fut_to_pipe_conn st f = Some c \<longrightarrow>
         c < next_conn st \<and> conn_close_calls st c = 0 \<and> f < next_fut st \<and> tracked st f) \<and>
      inj_on (fut_to_pipe_conn st) (dom (fut_to_pipe_conn st)) \<and>
      (\<forall>c. conn_close_calls st c \<le> 1) \<and>
      (\<forall>c. next_conn st \<le> c \<longrightarrow> conn_close_calls st c = 0) \<and>
      (\<forall>f. input_queue_fut st = Some f \<longrightarrow> fut_to_pipe_conn st f = None \<and> f < next_fut st))"

definition tables_inv :: "pipeline \<Rightarrow> bool" where
  "tables_inv st = (ctx_inv st \<and> conn_inv st)"

text \<open>
  A step is \<open>quiet\<close> when it leaves both tables, the close counts, the endpoint allocator and
  the input-queue future alone, and at most allocates futures.
\<close>

definition quiet :: "pipeline \<Rightarrow> pipeline \<Rightarrow> bool" where
  "quiet st st' =
     (running_wi_contexts st' = running_wi_contexts st \<and>
      fut_to_pipe_conn st' = fut_to_pipe_conn st \<and>
      conn_close_calls st' = conn_close_calls st \<and>
      next_conn st' = next_conn st \<and>
      input_queue_fut st' = input_queue_fut st \<and>
      next_fut st \<le> next_fut st')"

section \<open>Reachable states of a pipeline\<close>

text \<open>
  \<^verbatim>\<open>add_stage\<close> appends a stage to the list of stages.

  The states a pipeline object can be in are those obtained from a freshly constructed
  pipeline by the public calls (\<^verbatim>\<open>add_stage\<close>, \<^verbatim>\<open>submit\<close>,
  \<^verbatim>\<open>shutdown\<close> and its join), by iterations of the controller (an iteration from
  its start, or the resumption of an iteration that waits), and by the environment: a worker
  or the input queue settles a pending future with any result, and workers and callers
  change work item objects at will.  The steps of the caller, of the controller and of the
  workers are taken one at a time, in any order; the two tables of the controller are
  written by the controller's thread only.
\<close>

definition add_stage :: "stage \<Rightarrow> pipeline \<Rightarrow> pipeline" where
  "add_stage s st = st\<lparr>stages := stages st @ [s]\<rparr>"

inductive reachable :: "pipeline \<Rightarrow> bool" where
  created: "reachable (new_MultiprocessingPipeline sts h)"
| stage_added: "reachable st \<Longrightarrow> reachable (add_stage s st)"
| submitted: "reachable st \<Longrightarrow> reachable (snd (submit w st))"
| controller_step: "reachable st \<Longrightarrow> reachable (snd (pl_worker_step st))"
| controller_resume: "reachable st \<Longrightarrow> reachable (snd (pl_worker_resume st))"
| future_settled: "reachable st \<Longrightarrow> futs st f = Pending \<Longrightarrow>
                   reachable (st\<lparr>futs := (futs st)(f := r)\<rparr>)"
| objects_changed: "reachable st \<Longrightarrow> reachable (st\<lparr>heap := h\<rparr>)"
| shutdown_called: "reachable st \<Longrightarrow> reachable (snd (shutdown st))"
| shutdown_joined: "reachable st \<Longrightarrow> reachable (snd (shutdown_join st))"

section \<open>A run of a paired writer and reader\<close>

text \<open>
  A pipeline of two subprocess stages, the first paired with the second by a channel, both
  accepting every work item.  One item is submitted; the first iteration of the controller
  takes it from the input queue, creates the channel and submits both stages (future 3 for
  the writer of stage 0 with endpoint 1, future 4 for the reader of stage 1 with endpoint
  0); the second iteration finds nothing settled and waits.  Then the writer's future
  settles while the reader is still running, the waiting iteration is resumed, and at last
  the reader's future settles too.
\<close>

definition paired_writer_stage :: stage where
  "paired_writer_stage =
     \<lparr>stage_class = SubprocessPipelineStage, fn_determiner = Some accept_all,
      stage_kwargs = [], is_pipe_with_next_stage = True\<rparr>"

definition reader_stage :: stage where
  "reader_stage =
     \<lparr>stage_class = SubprocessPipelineStage, fn_determiner = Some accept_all,
      stage_kwargs = [], is_pipe_with_next_stage = False\<rparr>"

definition s4_init :: pipeline where
  "s4_init = new_MultiprocessingPipeline [paired_writer_stage, reader_stage] (\<lambda>r. item_x)"

definition s4_submitted :: pipeline where
  "s4_submitted = snd (submit (Some 0) s4_init)"

definition s4_dispatched :: pipeline where
  "s4_dispatched = snd (pl_worker_step s4_submitted)"

definition s4_waiting :: pipeline where
  "s4_waiting = snd (pl_worker_step s4_dispatched)"

definition s4_writer_done :: pipeline where
  "s4_writer_done = s4_waiting\<lparr>futs := (futs s4_waiting)(3 := Done_Result (ValWorkItem 1))\<rparr>"

definition s4_writer_seen :: pipeline where
  "s4_writer_seen = snd (pl_worker_resume s4_writer_done)"

definition s4_both_done :: pipeline where
  "s4_both_done = s4_writer_seen\<lparr>futs := (futs s4_writer_seen)(4 := Done_Result (ValWorkItem 1))\<rparr>"

section \<open>A run whose pairing last stage is entered as the reader\<close>

text \<open>
  A pipeline of two subprocess stages that both declare pairing with the next stage: the
  last stage has no successor.  One item is submitted; the first iteration of the
  controller stands on stage 0, which is not the last one, and hands the item to stage 0 as
  the writer (future 3) and to stage 1 as the reader (future 4).  The second iteration
  waits; then both workers return and the waiting iteration is resumed.
\<close>

definition s9_init :: pipeline where
  "s9_init = new_MultiprocessingPipeline [paired_writer_stage, pairing_stage] (\<lambda>r. item_x)"

definition s9_submitted :: pipeline where
  "s9_submitted = snd (submit (Some 0) s9_init)"

definition s9_dispatched :: pipeline where
  "s9_dispatched = snd (pl_worker_step s9_submitted)"

definition s9_waiting :: pipeline where
  "s9_waiting = snd (pl_worker_step s9_dispatched)"

definition s9_workers_done :: pipeline where
  "s9_workers_done =
     s9_waiting\<lparr>futs := (futs s9_waiting)(3 := Done_Result (ValWorkItem 1),
                                           4 := Done_Result (ValWorkItem 1))\<rparr>"

definition s9_finalized :: pipeline where
  "s9_finalized = snd (pl_worker_resume s9_workers_done)"

section \<open>Properties of the byte channel\<close>

lemma validate_write_buf_bytes: "validate_write_buf (PyBytes b) = Inr b"
  by (simp add: validate_write_buf_def)

lemma PipeConnectionMessage_bytes:
  "PipeConnectionMessage cmd (PyBytes b) = Inr (Message cmd (PyBytes b))"
  by (simp add: PipeConnectionMessage_def)

lemma send_message_eof: "io_eof self \<Longrightarrow> send_message self msg tx = (Inl PipeConnectionAlreadyEof, self)"
  by (simp add: send_message_def)

lemma write_empty: "write_bytes self (PyBytes []) tx = (Inr 0, self)"
  by (simp add: write_bytes_def validate_write_buf_bytes)

lemma write_nonempty_after_eof:
  assumes "io_is_write self" and "io_eof self" and "b \<noteq> []"
  shows "write_bytes self (PyBytes b) tx = (Inl PipeConnectionAlreadyEof, self)"
  using assms
  by (simp add: write_bytes_def validate_write_buf_bytes write_raw_def
      PipeConnectionMessage_bytes send_message_eof)

lemma write_eof_latches:
  assumes "write_eof self (PyBytes b0) tx0 = (Inr n, self')"
  shows "io_eof self' \<and> io_is_write self'"
proof -
  from assms have ne: "\<not> io_eof self" and w: "io_is_write self"
    by (auto simp: write_eof_def write_raw_def validate_write_buf_bytes split: if_splits)
  from assms ne w obtain cn where
    cn: "conn_send (io_c self) (Message (PyStr PIPE_CONN_MSG_CMD_DATA_FINAL) (PyBytes b0)) tx0 = Inr cn"
    by (auto simp: write_eof_def write_raw_def validate_write_buf_bytes
        PipeConnectionMessage_bytes send_message_def Let_def split: sum.splits)
  from assms ne w cn have
    "self' = self\<lparr>io_c := cn, io_eof := True,
                  io_num_bytes := io_num_bytes self + int (length b0)\<rparr>"
    by (auto simp: write_eof_def write_raw_def validate_write_buf_bytes
        PipeConnectionMessage_bytes send_message_def Let_def)
  with w show ?thesis by simp
qed

text \<open>
  C9.  \<^verbatim>\<open>close\<close> closes the underlying connection exactly when very-verbose logging
  is enabled: afterwards the connection is closed iff logging was very verbose or the
  connection had been closed before.  With very-verbose logging disabled the endpoint is
  returned as it was, so an open connection stays open and \<open>closed\<close> stays false.
\<close>

theorem close_only_when_very_verbose:
  "closed (close env self) = (is_very_verbose_logging env \<or> closed self) \<and>
   (\<not> is_very_verbose_logging env \<longrightarrow> close env self = self) \<and>
   (\<not> is_very_verbose_logging env \<and> \<not> closed self \<longrightarrow> \<not> closed (close env self))"
  by (simp add: close_def closed_def conn_close_def)

theorem close_only_when_very_verbose_witness:
  "\<not> is_very_verbose_logging quiet_env \<and> \<not> closed reader0 \<and>
   close quiet_env reader0 = reader0 \<and> \<not> closed (close quiet_env reader0)"
proof -
  have q: "\<not> is_very_verbose_logging quiet_env"
    by (simp add: is_very_verbose_logging_def quiet_env_def)
  have o: "\<not> closed reader0"
    by (simp add: closed_def reader0_def new_PipeConnectionIO_def pipe_r_def)
  from close_only_when_very_verbose [of quiet_env reader0] q o show ?thesis by simp
qed

text \<open>
  C10.  On a producer endpoint a zero-length \<^verbatim>\<open>write\<close> returns 0 and leaves the
  endpoint untouched (nothing is added to the log of transmitted frames, nothing is
  raised), also once end-of-stream is latched: the zero-length test comes before the
  end-of-stream test of \<^verbatim>\<open>send_message\<close>.  So after a successful \<^verbatim>\<open>write_eof\<close>
  the empty write still succeeds while every non-empty write raises
  \<^verbatim>\<open>PipeConnectionAlreadyEof\<close>.
\<close>

theorem write_zero_length_precedes_eof_check:
  "(io_is_write self \<longrightarrow> write_bytes self (PyBytes []) tx = (Inr 0, self)) \<and>
   (io_is_write self \<and> io_eof self \<and> b \<noteq> [] \<longrightarrow>
      write_bytes self (PyBytes b) tx = (Inl PipeConnectionAlreadyEof, self)) \<and>
   (write_eof self (PyBytes b0) tx0 = (Inr n, self') \<longrightarrow>
      io_eof self' \<and>
      write_bytes self' (PyBytes []) tx = (Inr 0, self') \<and>
      (b \<noteq> [] \<longrightarrow> write_bytes self' (PyBytes b) tx = (Inl PipeConnectionAlreadyEof, self')))"
  using write_empty write_nonempty_after_eof write_eof_latches by blast

theorem write_zero_length_precedes_eof_check_witness:
  "fst (write_eof writer0 (PyBytes [104, 105]) None) = Inr 2 \<and>
   io_is_write (snd (write_eof writer0 (PyBytes [104, 105]) None)) \<and>
   io_eof (snd (write_eof writer0 (PyBytes [104, 105]) None)) \<and>
   write_bytes (snd (write_eof writer0 (PyBytes [104, 105]) None)) (PyBytes []) None
     = (Inr 0, snd (write_eof writer0 (PyBytes [104, 105]) None)) \<and>
   write_bytes (snd (write_eof writer0 (PyBytes [104, 105]) None)) (PyBytes [33]) None
     = (Inl PipeConnectionAlreadyEof, snd (write_eof writer0 (PyBytes [104, 105]) None))"
proof -
  define s where "s = snd (write_eof writer0 (PyBytes [104, 105]) None)"
  have r: "write_eof writer0 (PyBytes [104, 105]) None = (Inr 2, s)"
    unfolding s_def
    by (simp add: write_eof_def write_raw_def validate_write_buf_def
        PipeConnectionMessage_def send_message_def conn_send_def writer0_def
        new_PipeConnectionIO_def pipe_w_def Let_def)
  have w: "io_is_write s"
    unfolding s_def
    by (simp add: write_eof_def write_raw_def validate_write_buf_def
        PipeConnectionMessage_def send_message_def conn_send_def writer0_def
        new_PipeConnectionIO_def pipe_w_def Let_def)
  have ne: "[33 :: 8 word] \<noteq> []" by simp
  from write_zero_length_precedes_eof_check
    [where self = writer0 and b = "[33]" and ?b0.0 = "[104, 105]" and ?tx0.0 = None
       and n = 2 and self' = s and tx = None] r w ne
  show ?thesis unfolding s_def [symmetric] by simp
qed

text \<open>
  C5 as stated fails: on a consumer endpoint a \<^verbatim>\<open>read\<close> with an explicit size does
  not raise \<^verbatim>\<open>InvalidFunctionArgument\<close>.
\<close>

theorem read_with_size_not_invalid_argument:
  "\<not> io_is_write reader0 \<and>
   fst (read reader0 (Some 4) (RxObject (Message (PyStr ''data'') (PyBytes [1]))))
     \<noteq> Inl InvalidFunctionArgument"
  by (simp add: read_def reader0_def new_PipeConnectionIO_def)

text \<open>
  C5, amended.  On a consumer endpoint \<^verbatim>\<open>read\<close> with an explicit (non-None) size
  raises \<^verbatim>\<open>InvalidPipeConnectionMessage\<close>, the exception the channel also uses for
  malformed frames; nothing is received and the endpoint is left as it was.
\<close>

theorem read_with_size_raises_invalid_message:
  "\<not> io_is_write self \<Longrightarrow> read self (Some n) rx = (Inl InvalidPipeConnectionMessage, self)"
  by (simp add: read_def)

theorem read_with_size_raises_invalid_message_witness:
  "\<not> io_is_write reader0 \<and>
   read reader0 (Some 4) RxEOF = (Inl InvalidPipeConnectionMessage, reader0)"
proof -
  have r: "\<not> io_is_write reader0"
    by (simp add: reader0_def new_PipeConnectionIO_def)
  from read_with_size_raises_invalid_message [OF r, of 4 RxEOF] r show ?thesis by simp
qed

text \<open>
  C2 as stated fails: a frame with a custom tag and a three-byte payload moves the
  counter from 0 to 3, on the sending and on the receiving endpoint.
\<close>

theorem custom_tag_advances_counter:
  "''note'' \<notin> set PIPE_CONN_MSG_DATA_CMDS \<and>
   tell writer0 = 0 \<and>
   send_message writer0 (Message (PyStr ''note'') (PyBytes [1, 2, 3])) None
     = (Inr (), writer0\<lparr>io_c := pipe_w\<lparr>c_sent := [Message (PyStr ''note'') (PyBytes [1, 2, 3])]\<rparr>,
                        io_num_bytes := 3\<rparr>) \<and>
   tell (snd (send_message writer0 (Message (PyStr ''note'') (PyBytes [1, 2, 3])) None)) = 3 \<and>
   tell reader0 = 0 \<and>
   fst (recv_message reader0 (RxObject (Message (PyStr ''note'') (PyBytes [1, 2, 3]))))
     = Inr (Message (PyStr ''note'') (PyBytes [1, 2, 3])) \<and>
   tell (snd (recv_message reader0 (RxObject (Message (PyStr ''note'') (PyBytes [1, 2, 3]))))) = 3"
  by (simp add: PIPE_CONN_MSG_DATA_CMDS_def PIPE_CONN_MSG_CMD_DATA_def
      PIPE_CONN_MSG_CMD_DATA_FINAL_def tell_def send_message_def recv_message_def
      conn_send_def conn_recv_def writer0_def reader0_def new_PipeConnectionIO_def
      pipe_w_def pipe_r_def)

text \<open>
  C2, amended.  The byte counter counts the payload of every frame, whatever its tag:
  a frame with a string tag (\<^verbatim>\<open>data\<close>, \<^verbatim>\<open>data-final\<close> or custom) and a bytes
  payload that is sent or received adds exactly the payload's length to \<open>tell\<close>, and
  a send or receive that raises leaves the endpoint, and so the counter, as it was.
\<close>

theorem byte_counter_counts_every_payload:
  "(send_message self (Message (PyStr tag) (PyBytes payload)) tx = (Inr u, self') \<longrightarrow>
      tell self' = tell self + int (length payload)) \<and>
   (recv_message self (RxObject (Message (PyStr tag) (PyBytes payload))) = (Inr m, self') \<longrightarrow>
      tell self' = tell self + int (length payload)) \<and>
   (send_message self msg tx = (Inl e, self') \<longrightarrow> self' = self) \<and>
   (recv_message self rx = (Inl e, self') \<longrightarrow> self' = self)"
proof (intro conjI impI)
  assume "send_message self (Message (PyStr tag) (PyBytes payload)) tx = (Inr u, self')"
  then show "tell self' = tell self + int (length payload)"
    by (auto simp: send_message_def tell_def Let_def split: if_splits sum.splits)
next
  assume "recv_message self (RxObject (Message (PyStr tag) (PyBytes payload))) = (Inr m, self')"
  then show "tell self' = tell self + int (length payload)"
    by (auto simp: recv_message_def conn_recv_def tell_def Let_def split: if_splits)
next
  assume "send_message self msg tx = (Inl e, self')"
  then show "self' = self"
    by (auto simp: send_message_def Let_def
        split: if_splits sum.splits pyobject.splits pyval.splits)
next
  assume "recv_message self rx = (Inl e, self')"
  then show "self' = self"
    by (auto simp: recv_message_def Let_def
        split: if_splits sum.splits pyobject.splits pyval.splits)
qed

theorem byte_counter_counts_every_payload_witness:
  "tell (snd (send_message writer0 (Message (PyStr ''note'') (PyBytes [7, 7])) None))
     = tell writer0 + 2 \<and>
   tell (snd (recv_message reader0 (RxObject (Message (PyStr ''data'') (PyBytes [7, 7])))))
     = tell reader0 + 2 \<and>
   snd (send_message writer0 (NotMessage PyNone) None) = writer0 \<and>
   snd (recv_message reader0 RxEOF) = reader0"
proof -
  define sw where "sw = snd (send_message writer0 (Message (PyStr ''note'') (PyBytes [7, 7])) None)"
  define sr where "sr = snd (recv_message reader0 (RxObject (Message (PyStr ''data'') (PyBytes [7, 7]))))"
  have a: "send_message writer0 (Message (PyStr ''note'') (PyBytes [7, 7])) None = (Inr (), sw)"
    unfolding sw_def
    by (simp add: send_message_def conn_send_def writer0_def new_PipeConnectionIO_def pipe_w_def
        Let_def PIPE_CONN_MSG_CMD_DATA_FINAL_def)
  have b: "recv_message reader0 (RxObject (Message (PyStr ''data'') (PyBytes [7, 7])))
             = (Inr (Message (PyStr ''data'') (PyBytes [7, 7])), sr)"
    unfolding sr_def
    by (simp add: recv_message_def conn_recv_def reader0_def new_PipeConnectionIO_def pipe_r_def
        Let_def PIPE_CONN_MSG_CMD_DATA_FINAL_def)
  from byte_counter_counts_every_payload
    [where self = writer0 and tag = "''note''" and payload = "[7, 7]" and tx = None
       and u = "()" and self' = sw]
  have 1: "tell sw = tell writer0 + 2" using a by simp
  from byte_counter_counts_every_payload
    [where self = reader0 and tag = "''data''" and payload = "[7, 7]"
       and m = "Message (PyStr ''data'') (PyBytes [7, 7])" and self' = sr]
  have 2: "tell sr = tell reader0 + 2" using b by simp
  have 3: "snd (send_message writer0 (NotMessage PyNone) None) = writer0"
    by (simp add: send_message_def writer0_def new_PipeConnectionIO_def)
  have 4: "snd (recv_message reader0 RxEOF) = reader0"
    by (simp add: recv_message_def conn_recv_def reader0_def new_PipeConnectionIO_def pipe_r_def)
  from 1 2 3 4 show ?thesis unfolding sw_def sr_def by simp
qed

section \<open>Properties of the work item and the controller\<close>

lemma stage_complete_error_self:
  assumes "\<not> is_failed (h wi)"
  shows "\<exists>l. exceptions (stage_complete h wi n wi (Some e) wi) = Some l \<and> l \<noteq> [] \<and> set l = {e}"
  using assms
  by (auto simp: stage_complete_def Let_def append_exception_def is_failed_def
      split: option.splits)

lemma stage_complete_error_other:
  assumes "self \<noteq> wi" and "\<not> is_failed (h wi)"
  shows "exceptions (stage_complete h self n wi (Some e) self)
           = Some ((case exceptions (h self) of None \<Rightarrow> [] | Some l \<Rightarrow> l) @ [e])"
  using assms
  by (simp add: stage_complete_def Let_def append_exception_def)

lemma set_wi_to_finished_ok:
  assumes "\<not> is_wi_still_running st wi"
    and "map_of (wi_to_wifut st) (Some wi) = Some uf" and "futs st uf = Pending"
  shows "set_wi_to_finished wi st =
           (Returns (), st\<lparr>wi_to_wifut := AList.delete (Some wi) (wi_to_wifut st),
                           futs := (futs st)(uf := Done_Result (ValWorkItem wi))\<rparr>)"
  using assms by (simp add: set_wi_to_finished_def set_result_def)

lemma handle_completed_fut_failed:
  assumes "plfut_to_wi st f = Some wi"
    and "map_of (running_wi_contexts st) wi = Some [c]" and "ctx_fut c = f"
    and "futs st f = Done_Exception e"
  shows "handle_completed_fut f st =
           (Returns (Some wi, False),
            st\<lparr>plfut_to_wi := (plfut_to_wi st)(f := None),
               running_wi_contexts := AList.delete wi (running_wi_contexts st),
               heap := stage_complete (heap st) wi (ctx_cur_stage c) wi (Some e)\<rparr>)"
  using assms
  by (simp add: handle_completed_fut_def get_completed_work_item_info_def Let_def)

text \<open>
  C1 as stated fails.  In the run of the one-stage pipeline whose worker raises
  \<open>boom\<close>, the work item ends with the failure list \<open>[boom, boom]\<close>, of length 2: the
  controller calls \<^verbatim>\<open>wi.stage_complete(wi=wi, ex=...)\<close> with the item itself as the
  result item, so after appending the error the method finds its own item failed and
  extends the list with itself.  The completion handle (future 1) is completed by
  \<^verbatim>\<open>set_result(wi)\<close>: \<^verbatim>\<open>result()\<close> returns the failed item and raises nothing.
\<close>

theorem single_stage_failure_counterexample:
  "fst (submit (Some 0) s3_init) = Returns 1 \<and>
   fst (pl_worker_step s3_submitted) = Returns Continue \<and>
   map sub_fut (submissions s3_dispatched) = [3] \<and>
   fst (pl_worker_step s3_dispatched) = Blocks \<and>
   fst (pl_worker_resume s3_worker_raised) = Returns Continue \<and>
   exceptions (heap s3_finalized 0) = Some [boom, boom] \<and>
   futs s3_finalized 1 = Done_Result (ValWorkItem 0) \<and>
   exceptions (stage_complete (heap s3_worker_raised) 0 0 0 (Some boom) 0) = Some [boom, boom]"
  by code_simp

text \<open>
  C1, amended.  When the only outstanding stage execution of a work item that has not
  failed yet settles with an exception \<open>e\<close> (the case of a one-stage pipeline whose
  worker raises), the controller's processing of that future records \<open>e\<close> in the item's
  failure list, which becomes non-empty and holds nothing but \<open>e\<close>; it removes
  the item from the submitted-items table and completes the user-visible handle with the
  work item as its result, so that \<^verbatim>\<open>result()\<close> returns the failed item.  And
  \<^verbatim>\<open>stage_complete\<close> called with an error and with a result item that is another
  object, without failures of its own, appends the error exactly once.
\<close>

theorem failed_stage_finalizes_item:
  assumes "plfut_to_wi st f = Some wi"
    and "map_of (running_wi_contexts st) wi = Some [c]" and "ctx_fut c = f"
    and "futs st f = Done_Exception e"
    and "\<not> is_failed (heap st wi)"
    and "map_of (wi_to_wifut st) (Some wi) = Some uf" and "futs st uf = Pending"
  shows "(\<exists>st'. pl_worker_process [f] st = (Returns Continue, st') \<and>
           (\<exists>l. exceptions (heap st' wi) = Some l \<and> l \<noteq> [] \<and> set l = {e}) \<and>
           futs st' uf = Done_Result (ValWorkItem wi) \<and>
           map_of (wi_to_wifut st') (Some wi) = None) \<and>
         (\<forall>h r n. r \<noteq> wi \<and> \<not> is_failed (h r) \<longrightarrow>
            exceptions (stage_complete h wi n r (Some e) wi)
              = Some ((case exceptions (h wi) of None \<Rightarrow> [] | Some l \<Rightarrow> l) @ [e]))"
proof -
  define st1 where "st1 = st\<lparr>plfut_to_wi := (plfut_to_wi st)(f := None),
               running_wi_contexts := AList.delete wi (running_wi_contexts st),
               heap := stage_complete (heap st) wi (ctx_cur_stage c) wi (Some e)\<rparr>"
  have h: "handle_completed_fut f st = (Returns (Some wi, False), st1)"
    unfolding st1_def using assms(1-4) by (rule handle_completed_fut_failed)
  from stage_complete_error_self [of "heap st" wi "ctx_cur_stage c" e] assms(5) obtain l where
    l: "exceptions (heap st1 wi) = Some l" "l \<noteq> []" "set l = {e}"
    unfolding st1_def by auto
  then have failed: "is_failed (heap st1 wi)" by (simp add: is_failed_def)
  have nr: "\<not> is_wi_still_running st1 wi"
    by (simp add: is_wi_still_running_def st1_def delete_conv)
  have uf: "map_of (wi_to_wifut st1) (Some wi) = Some uf" "futs st1 uf = Pending"
    using assms(6,7) by (simp_all add: st1_def)
  define st2 where "st2 = st1\<lparr>wi_to_wifut := AList.delete (Some wi) (wi_to_wifut st1),
                           futs := (futs st1)(uf := Done_Result (ValWorkItem wi))\<rparr>"
  have fin: "set_wi_to_finished wi st1 = (Returns (), st2)"
    unfolding st2_def using nr uf by (rule set_wi_to_finished_ok)
  have "pl_worker_process [f] st = (Returns Continue, st2)"
    by (simp add: pl_worker_process_def and_then_def h nr failed fin)
  moreover have "exceptions (heap st2 wi) = Some l" using l(1) by (simp add: st2_def)
  moreover have "futs st2 uf = Done_Result (ValWorkItem wi)" by (simp add: st2_def)
  moreover have "map_of (wi_to_wifut st2) (Some wi) = None" by (simp add: st2_def delete_conv)
  ultimately have a: "\<exists>st'. pl_worker_process [f] st = (Returns Continue, st') \<and>
           (\<exists>l. exceptions (heap st' wi) = Some l \<and> l \<noteq> [] \<and> set l = {e}) \<and>
           futs st' uf = Done_Result (ValWorkItem wi) \<and>
           map_of (wi_to_wifut st') (Some wi) = None"
    using l(2,3) by blast
  have b: "\<forall>h r n. r \<noteq> wi \<and> \<not> is_failed (h r) \<longrightarrow>
            exceptions (stage_complete h wi n r (Some e) wi)
              = Some ((case exceptions (h wi) of None \<Rightarrow> [] | Some l \<Rightarrow> l) @ [e])"
    using stage_complete_error_other by metis
  from a b show ?thesis by blast
qed

theorem failed_stage_finalizes_item_witness:
  "plfut_to_wi s3_worker_raised 3 = Some 0 \<and>
   map_of (running_wi_contexts s3_worker_raised) 0
     = Some [\<lparr>ctx_cur_stage = 0, ctx_fut = 3, ctx_wi = 0\<rparr>] \<and>
   futs s3_worker_raised 3 = Done_Exception boom \<and>
   \<not> is_failed (heap s3_worker_raised 0) \<and>
   map_of (wi_to_wifut s3_worker_raised) (Some 0) = Some 1 \<and>
   futs s3_worker_raised 1 = Pending \<and>
   (\<exists>st'. pl_worker_process [3] s3_worker_raised = (Returns Continue, st') \<and>
      (\<exists>l. exceptions (heap st' 0) = Some l \<and> l \<noteq> [] \<and> set l = {boom}) \<and>
      futs st' 1 = Done_Result (ValWorkItem 0) \<and>
      map_of (wi_to_wifut st') (Some 0) = None) \<and>
   exceptions (stage_complete (heap s3_worker_raised) 0 0 7 (Some boom) 0) = Some [boom]"
proof -
  have 1: "plfut_to_wi s3_worker_raised 3 = Some 0" by code_simp
  have 2: "map_of (running_wi_contexts s3_worker_raised) 0
             = Some [\<lparr>ctx_cur_stage = 0, ctx_fut = 3, ctx_wi = 0\<rparr>]" by code_simp
  have 3: "ctx_fut \<lparr>ctx_cur_stage = 0, ctx_fut = 3, ctx_wi = 0\<rparr> = 3" by simp
  have 4: "futs s3_worker_raised 3 = Done_Exception boom" by code_simp
  have 5: "\<not> is_failed (heap s3_worker_raised 0)" by code_simp
  have 6: "map_of (wi_to_wifut s3_worker_raised) (Some 0) = Some 1" by code_simp
  have 7: "futs s3_worker_raised 1 = Pending" by code_simp
  have 8: "(7::nat) \<noteq> 0 \<and> \<not> is_failed (heap s3_worker_raised 7)" by code_simp
  have 9: "exceptions (heap s3_worker_raised 0) = None" by code_simp
  note t = failed_stage_finalizes_item [OF 1 2 3 4 5 6 7]
  from t 8 9 have "exceptions (stage_complete (heap s3_worker_raised) 0 0 7 (Some boom) 0) = Some [boom]"
    by (metis (no_types, lifting) append_Nil option.simps(4))
  with t 1 2 4 5 6 7 show ?thesis by blast
qed

text \<open>
  C3: the run continued through \<^verbatim>\<open>shutdown\<close>.  The caller's \<^verbatim>\<open>shutdown\<close> finds the
  submitted-items table empty, enqueues the sentinel and waits for the controller; the
  controller takes the sentinel and exits gracefully; \<^verbatim>\<open>shutdown\<close> then shuts down the
  primary subprocess pool and the thread pool and returns.  The secondary subprocess
  pool is not shut down, and the submitted-items table holds the entry that
  \<^verbatim>\<open>_internal_submit(None)\<close> made for the sentinel.
\<close>

theorem shutdown_misses_second_pool:
  "wi_to_wifut s3_finalized = [] \<and>
   fst (shutdown s3_finalized) = Blocks \<and>
   fst (pl_worker_resume s3_shutdown_requested) = Returns Break \<and>
   was_graceful_shutdown s3_controller_exited \<and>
   fst (shutdown_join s3_controller_exited) = Returns () \<and>
   thread_exec_shutdown s3_shut_down \<and>
   process_exec_shutdown s3_shut_down \<and>
   \<not> process_exec2_shutdown s3_shut_down \<and>
   wi_to_wifut s3_shut_down = [(None, 5)]"
  by code_simp

lemma skip_declined_loop:
  "skip_declined n wi st = Some st2 \<Longrightarrow> stages_loop wi st = stages_loop wi st2"
proof (induction n arbitrary: st)
  case 0
  then show ?case by simp
next
  case (Suc n)
  from Suc.prems show ?case
    by (subst stages_loop.simps)
       (auto split: if_splits sum.splits prod.splits outcome.splits dest: Suc.IH)
qed

lemma advance_twice:
  assumes "st2 = (st1\<lparr>heap := (heap st1)(wi := increment_stage (heap st1 wi))\<rparr>)
             \<lparr>heap := (heap (st1\<lparr>heap := (heap st1)(wi := increment_stage (heap st1 wi))\<rparr>))
                (wi := (heap (st1\<lparr>heap := (heap st1)(wi := increment_stage (heap st1 wi))\<rparr>) wi)
                   \<lparr>cur_stage :=
                      cur_stage (heap (st1\<lparr>heap := (heap st1)(wi := increment_stage (heap st1 wi))\<rparr>) wi)
                        + int n\<rparr>)\<rparr>"
    and "st1 = st"
  shows "st2 = st\<lparr>heap := (heap st)(wi := (heap st wi)\<lparr>cur_stage := cur_stage (heap st wi) + int (Suc n)\<rparr>)\<rparr>"
  using assms by (simp add: increment_stage_def add.assoc)

lemma skip_declined_frame:
  "skip_declined n wi st = Some st2 \<Longrightarrow>
   st2 = st\<lparr>heap := (heap st)(wi := (heap st wi)\<lparr>cur_stage := cur_stage (heap st wi) + int n\<rparr>)\<rparr>"
proof (induction n arbitrary: st)
  case 0
  then show ?case by simp
next
  case (Suc n)
  from Suc.prems obtain s st1 where
    s: "stages_at st (cur_stage (heap st wi)) = Inr s"
    and t: "(if is_pipe_with_next_stage s
             then try_submit_to_dual_stage_with_pipe wi st
             else try_submit_to_stage wi st) = (Returns False, st1)"
    and nf: "\<not> is_failed (heap st1 wi)"
    and r: "skip_declined n wi (st1\<lparr>heap := (heap st1)(wi := increment_stage (heap st1 wi))\<rparr>) = Some st2"
    by (auto split: if_splits sum.splits prod.splits outcome.splits)
  from t nf have "st1 = st"
    using try_submit_to_stage_declined try_submit_to_dual_stage_with_pipe_declined
    by (metis (full_types))
  show ?case
    using Suc.IH [OF r] \<open>st1 = st\<close> by (rule advance_twice)
qed

lemma is_failed_append_exception: "is_failed (append_exception w ex)"
  by (simp add: is_failed_def append_exception_def)

lemma is_stage_for_work_item_raises:
  assumes "stages_at st k = Inr s" and "is_for_stage s (heap st wi) = Inl ex"
  shows "is_stage_for_work_item wi (Some k) st =
           (Returns False, st\<lparr>heap := (heap st)(wi := append_exception (heap st wi) ex)\<rparr>)"
  using assms by (simp add: is_stage_for_work_item_def)

lemma is_stage_for_work_item_answers:
  assumes "stages_at st k = Inr s" and "is_for_stage s (heap st wi) = Inr b"
  shows "is_stage_for_work_item wi (Some k) st = (Returns b, st)"
  using assms by (simp add: is_stage_for_work_item_def)

lemma is_stage_for_work_item_default:
  "is_stage_for_work_item wi None st = is_stage_for_work_item wi (Some (cur_stage (heap st wi))) st"
  by (simp add: is_stage_for_work_item_def)

lemma past_last_stage_after_raise:
  "past_last_stage_if_failed wi (st\<lparr>heap := (heap st)(wi := append_exception (heap st wi) ex)\<rparr>)
     = st\<lparr>heap := (heap st)(wi := (append_exception (heap st wi) ex)\<lparr>cur_stage := num_stages st\<rparr>)\<rparr>"
  by (simp add: past_last_stage_if_failed_def is_failed_append_exception num_stages_def)

lemma try_submit_to_stage_raises:
  assumes "stages_at st (cur_stage (heap st wi)) = Inr s"
    and "is_for_stage s (heap st wi) = Inl ex"
  shows "try_submit_to_stage wi st =
           (Returns False,
            st\<lparr>heap := (heap st)(wi := (append_exception (heap st wi) ex)\<lparr>cur_stage := num_stages st\<rparr>)\<rparr>)"
  by (simp add: try_submit_to_stage_def and_then_def is_stage_for_work_item_default
      is_stage_for_work_item_raises [OF assms] past_last_stage_after_raise)

lemma try_submit_to_dual_first_raises:
  assumes "stages_at st (cur_stage (heap st wi)) = Inr s"
    and "is_for_stage s (heap st wi) = Inl ex"
    and "cur_stage (heap st wi) \<noteq> num_stages st - 1"
  shows "try_submit_to_dual_stage_with_pipe wi st =
           (Returns False,
            st\<lparr>heap := (heap st)(wi := (append_exception (heap st wi) ex)\<lparr>cur_stage := num_stages st\<rparr>)\<rparr>)"
  using assms(3)
  by (simp add: try_submit_to_dual_stage_with_pipe_def and_then_def
      is_stage_for_work_item_raises [OF assms(1,2)] past_last_stage_after_raise)

lemma try_submit_to_dual_second_raises:
  assumes "stages_at st (cur_stage (heap st wi)) = Inr s"
    and "is_for_stage s (heap st wi) = Inr True"
    and "stages_at st (cur_stage (heap st wi) + 1) = Inr s2"
    and "is_for_stage s2 (heap st wi) = Inl ex"
    and "cur_stage (heap st wi) \<noteq> num_stages st - 1"
  shows "try_submit_to_dual_stage_with_pipe wi st =
           (Returns False,
            st\<lparr>heap := (heap st)(wi := (append_exception (heap st wi) ex)\<lparr>cur_stage := num_stages st\<rparr>)\<rparr>)"
  using assms(5)
  by (simp add: try_submit_to_dual_stage_with_pipe_def and_then_def
      is_stage_for_work_item_answers [OF assms(1,2)]
      is_stage_for_work_item_raises [OF assms(3,4)] past_last_stage_after_raise)

text \<open>
  C7.  Let the advancement of a work item that is tracked in the submitted-items table,
  has not failed and has no outstanding execution reach, after \<open>n\<close> declined stages,
  a stage whose predicate raises \<open>ex\<close> when asked: the predicate of an unpaired stage,
  or, for a stage that pairs with its successor, the predicate of the stage itself or
  (the first having accepted) the predicate of the successor.  Then
  \<^verbatim>\<open>_handle_stages_for_wi\<close> returns normally with \<open>ex\<close> as the item's one failure, the
  item failed, its stage index equal to the number of stages, the item removed from
  the submitted-items table and its completion handle completed with the item; nothing
  has been handed to an executor and no execution is tracked for the item, so neither
  that stage nor a later one gets it.
\<close>

theorem predicate_exception_fails_and_finalizes:
  assumes skip: "skip_declined n wi st = Some st2"
    and nonneg: "0 \<le> cur_stage (heap st wi)"
    and inrange: "cur_stage (heap st2 wi) < num_stages st2"
    and stage: "stages_at st2 (cur_stage (heap st2 wi)) = Inr s"
    and raises:
      "(\<not> is_pipe_with_next_stage s \<and> is_for_stage s (heap st2 wi) = Inl ex) \<or>
       (is_pipe_with_next_stage s \<and> cur_stage (heap st2 wi) \<noteq> num_stages st2 - 1 \<and>
          is_for_stage s (heap st2 wi) = Inl ex) \<or>
       (is_pipe_with_next_stage s \<and> cur_stage (heap st2 wi) \<noteq> num_stages st2 - 1 \<and>
          is_for_stage s (heap st2 wi) = Inr True \<and>
          stages_at st2 (cur_stage (heap st2 wi) + 1) = Inr s2 \<and>
          is_for_stage s2 (heap st2 wi) = Inl ex)"
    and unfailed: "\<not> is_failed (heap st wi)"
    and idle: "\<not> is_wi_still_running st wi"
    and handle: "map_of (wi_to_wifut st) (Some wi) = Some uf" "futs st uf = Pending"
  shows "\<exists>st'. handle_stages_for_wi wi st = (Returns (), st') \<and>
           exceptions (heap st' wi) = Some [ex] \<and>
           is_failed (heap st' wi) \<and>
           cur_stage (heap st' wi) = num_stages st \<and>
           map_of (wi_to_wifut st') (Some wi) = None \<and>
           futs st' uf = Done_Result (ValWorkItem wi) \<and>
           submissions st' = submissions st \<and>
           plfut_to_wi st' = plfut_to_wi st \<and>
           running_wi_contexts st' = running_wi_contexts st"
proof -
  note fr = skip_declined_frame [OF skip]
  define st3 where
    "st3 = st2\<lparr>heap := (heap st2)(wi := (append_exception (heap st2 wi) ex)\<lparr>cur_stage := num_stages st2\<rparr>)\<rparr>"
  have step: "(if is_pipe_with_next_stage s
               then try_submit_to_dual_stage_with_pipe wi st2
               else try_submit_to_stage wi st2) = (Returns False, st3)"
    unfolding st3_def using raises stage
    by (auto simp: try_submit_to_stage_raises try_submit_to_dual_first_raises
        try_submit_to_dual_second_raises)
  have failed3: "is_failed (heap st3 wi)"
    by (simp add: st3_def is_failed_def append_exception_def)
  have loop2: "stages_loop wi st2 = (Returns (), st3)"
    by (subst stages_loop.simps) (simp add: inrange stage step failed3)
  have loop: "stages_loop wi st = (Returns (), st3)"
    using skip_declined_loop [OF skip] loop2 by simp
  have ns: "num_stages st2 = num_stages st" "num_stages st3 = num_stages st"
    by (subst fr, simp add: num_stages_def, simp add: st3_def, subst fr, simp add: num_stages_def)
  have cur2: "cur_stage (heap st2 wi) = cur_stage (heap st wi) + int n"
    by (subst fr) simp
  have first: "\<not> (cur_stage (heap st wi) < 0 \<or> cur_stage (heap st wi) > num_stages st)"
    using nonneg inrange cur2 ns by simp
  have run3: "running_wi_contexts st3 = running_wi_contexts st"
    by (simp add: st3_def, subst fr, simp)
  have idle3: "\<not> is_wi_still_running st3 wi"
    using idle by (simp add: is_wi_still_running_def run3)
  have cur3: "cur_stage (heap st3 wi) = num_stages st"
    by (simp add: st3_def ns)
  have uf3: "map_of (wi_to_wifut st3) (Some wi) = Some uf" "futs st3 uf = Pending"
    using handle by (simp add: st3_def, subst fr, simp, simp add: st3_def, subst fr, simp)
  define st4 where "st4 = st3\<lparr>wi_to_wifut := AList.delete (Some wi) (wi_to_wifut st3),
                           futs := (futs st3)(uf := Done_Result (ValWorkItem wi))\<rparr>"
  have fin: "set_wi_to_finished wi st3 = (Returns (), st4)"
    unfolding st4_def using idle3 uf3 by (rule set_wi_to_finished_ok)
  have res: "handle_stages_for_wi wi st = (Returns (), st4)"
    using first by (simp add: handle_stages_for_wi_def and_then_def loop idle3 cur3 ns fin)
  have exs2: "exceptions (heap st2 wi) = exceptions (heap st wi)"
    by (subst fr) simp
  have exs: "exceptions (heap st4 wi)
               = Some ((case exceptions (heap st wi) of None \<Rightarrow> [] | Some l \<Rightarrow> l) @ [ex])"
    by (simp add: st4_def st3_def append_exception_def exs2)
  have e: "exceptions (heap st4 wi) = Some [ex]"
    using exs unfailed by (cases "exceptions (heap st wi)") (auto simp: is_failed_def)
  have f4: "is_failed (heap st4 wi)" using failed3 by (simp add: st4_def)
  have c4: "cur_stage (heap st4 wi) = num_stages st" using cur3 by (simp add: st4_def)
  have t4: "map_of (wi_to_wifut st4) (Some wi) = None" by (simp add: st4_def delete_conv)
  have u4: "futs st4 uf = Done_Result (ValWorkItem wi)" by (simp add: st4_def)
  have s4: "submissions st4 = submissions st" by (simp add: st4_def st3_def, subst fr, simp)
  have p4: "plfut_to_wi st4 = plfut_to_wi st" by (simp add: st4_def st3_def, subst fr, simp)
  have r4: "running_wi_contexts st4 = running_wi_contexts st" using run3 by (simp add: st4_def)
  from res e f4 c4 t4 u4 s4 p4 r4 show ?thesis by blast
qed

lemma fail_all_loop_spec:
  assumes "distinct (map fst l)" and "distinct (map snd l)" and "None \<notin> fst ` set l"
  shows "\<exists>st'. fail_all_loop l ex st = (Returns (), st') \<and>
           (\<forall>w f. (Some w, f) \<in> set l \<and> futs st f = Pending \<longrightarrow>
                  futs st' f = Done_Exception ex \<and>
                  heap st' w = append_exception (heap st w) ex) \<and>
           (\<forall>f. f \<notin> snd ` set l \<longrightarrow> futs st' f = futs st f) \<and>
           (\<forall>w. Some w \<notin> fst ` set l \<longrightarrow> heap st' w = heap st w) \<and>
           pl_worker_future st' = pl_worker_future st \<and>
           was_graceful_shutdown st' = was_graceful_shutdown st \<and>
           wi_to_wifut st' = wi_to_wifut st"
  using assms
proof (induction l arbitrary: st)
  case Nil
  then show ?case by simp
next
  case (Cons p rest)
  obtain k f where p: "p = (k, f)" by (cases p)
  with Cons.prems obtain w where k: "k = Some w" by (cases k) auto
  from Cons.prems p k have d: "distinct (map fst rest)" "distinct (map snd rest)"
    "None \<notin> fst ` set rest" "f \<notin> snd ` set rest" "Some w \<notin> fst ` set rest"
    by auto
  show ?case
  proof (cases "futs st f = Pending")
    case False
    from Cons.IH [OF d(1-3), of st] obtain st' where
      r: "fail_all_loop rest ex st = (Returns (), st')"
      and a: "\<forall>w f. (Some w, f) \<in> set rest \<and> futs st f = Pending \<longrightarrow>
                  futs st' f = Done_Exception ex \<and>
                  heap st' w = append_exception (heap st w) ex"
      and b: "\<forall>f. f \<notin> snd ` set rest \<longrightarrow> futs st' f = futs st f"
      and c: "\<forall>w. Some w \<notin> fst ` set rest \<longrightarrow> heap st' w = heap st w"
      and e: "pl_worker_future st' = pl_worker_future st"
             "was_graceful_shutdown st' = was_graceful_shutdown st"
             "wi_to_wifut st' = wi_to_wifut st"
      by blast
    have "fail_all_loop (p # rest) ex st = (Returns (), st')"
      using False r by (simp add: p k fut_done_def)
    moreover have "\<forall>w' f'. (Some w', f') \<in> set (p # rest) \<and> futs st f' = Pending \<longrightarrow>
                  futs st' f' = Done_Exception ex \<and>
                  heap st' w' = append_exception (heap st w') ex"
      using a False by (auto simp: p k)
    moreover have "\<forall>f'. f' \<notin> snd ` set (p # rest) \<longrightarrow> futs st' f' = futs st f'"
      using b by (auto simp: p)
    moreover have "\<forall>w'. Some w' \<notin> fst ` set (p # rest) \<longrightarrow> heap st' w' = heap st w'"
      using c by (auto simp: p)
    ultimately show ?thesis using e by blast
  next
    case True
    define st1 where "st1 = st\<lparr>heap := (heap st)(w := append_exception (heap st w) ex),
                                futs := (futs st)(f := Done_Exception ex)\<rparr>"
    from Cons.IH [OF d(1-3), of st1] obtain st' where
      r: "fail_all_loop rest ex st1 = (Returns (), st')"
      and a: "\<forall>w f. (Some w, f) \<in> set rest \<and> futs st1 f = Pending \<longrightarrow>
                  futs st' f = Done_Exception ex \<and>
                  heap st' w = append_exception (heap st1 w) ex"
      and b: "\<forall>f. f \<notin> snd ` set rest \<longrightarrow> futs st' f = futs st1 f"
      and c: "\<forall>w. Some w \<notin> fst ` set rest \<longrightarrow> heap st' w = heap st1 w"
      and e: "pl_worker_future st' = pl_worker_future st1"
             "was_graceful_shutdown st' = was_graceful_shutdown st1"
             "wi_to_wifut st' = wi_to_wifut st1"
      by blast
    have run: "fail_all_loop (p # rest) ex st = (Returns (), st')"
      using True r by (simp add: p k fut_done_def set_exception_def st1_def)
    have hd: "futs st' f = Done_Exception ex" "heap st' w = append_exception (heap st w) ex"
      using b c d(4,5) by (simp_all add: st1_def)
    have tl: "\<forall>w' f'. (Some w', f') \<in> set rest \<and> futs st f' = Pending \<longrightarrow>
                  futs st' f' = Done_Exception ex \<and>
                  heap st' w' = append_exception (heap st w') ex"
    proof (intro allI impI)
      fix w' f' assume h: "(Some w', f') \<in> set rest \<and> futs st f' = Pending"
      then have ne: "f' \<noteq> f" "w' \<noteq> w" using d(4,5) by force+
      with h have "(Some w', f') \<in> set rest \<and> futs st1 f' = Pending"
        by (simp add: st1_def)
      with a have "futs st' f' = Done_Exception ex \<and>
                  heap st' w' = append_exception (heap st1 w') ex"
        by blast
      with ne show "futs st' f' = Done_Exception ex \<and>
                  heap st' w' = append_exception (heap st w') ex"
        by (simp add: st1_def)
    qed
    have "\<forall>w' f'. (Some w', f') \<in> set (p # rest) \<and> futs st f' = Pending \<longrightarrow>
                  futs st' f' = Done_Exception ex \<and>
                  heap st' w' = append_exception (heap st w') ex"
      using hd tl by (auto simp: p k)
    moreover have "\<forall>f'. f' \<notin> snd ` set (p # rest) \<longrightarrow> futs st' f' = futs st f'"
      using b by (auto simp: p st1_def)
    moreover have "\<forall>w'. Some w' \<notin> fst ` set (p # rest) \<longrightarrow> heap st' w' = heap st w'"
      using c by (auto simp: p k st1_def)
    moreover have "pl_worker_future st' = pl_worker_future st"
      "was_graceful_shutdown st' = was_graceful_shutdown st"
      "wi_to_wifut st' = wi_to_wifut st"
      using e by (simp_all add: st1_def)
    ultimately show ?thesis using run by blast
  qed
qed

lemma try_submit_to_dual_last_stage:
  "cur_stage (heap st wi) = num_stages st - 1 \<Longrightarrow>
   try_submit_to_dual_stage_with_pipe wi st = (Raises PipelineLastStageError, st)"
  by (simp add: try_submit_to_dual_stage_with_pipe_def)

text \<open>
  C8 as stated fails.  In the pipeline whose two stages both declare pairing, the item
  reaches the last stage as the reader half of the pair opened by stage 0:
  \<^verbatim>\<open>_try_submit_to_dual_stage_with_pipe\<close> tests \<^verbatim>\<open>wi.cur_stage == num_stages - 1\<close>
  for the writer's index only and submits the item to the next stage without reading that
  stage's pairing flag.  The item is submitted to both stages, no
  \<^verbatim>\<open>PipelineLastStageError\<close> is raised, and once both workers have returned the item
  is finished without any failure and its completion handle holds the item.
\<close>

theorem paired_last_stage_entered_as_reader:
  "num_stages s9_submitted = 2 \<and>
   (case stages_at s9_submitted 1 of Inl e \<Rightarrow> False | Inr s \<Rightarrow> is_pipe_with_next_stage s) \<and>
   fst (submit (Some 0) s9_init) = Returns 1 \<and>
   fst (pl_worker_step s9_submitted) = Returns Continue \<and>
   map sub_fut (submissions s9_dispatched) = [3, 4] \<and>
   map (\<lambda>s. cur_stage (sub_item s)) (submissions s9_dispatched) = [0, 1] \<and>
   map (\<lambda>s. is_pipe_with_next_stage (sub_stage s)) (submissions s9_dispatched) = [True, True] \<and>
   fst (pl_worker_step s9_dispatched) = Blocks \<and>
   fst (pl_worker_resume s9_workers_done) = Returns Continue \<and>
   cur_stage (heap s9_finalized 0) = 2 \<and>
   exceptions (heap s9_finalized 0) = None \<and>
   futs s9_finalized 1 = Done_Result (ValWorkItem 0) \<and>
   wi_to_wifut s9_finalized = [] \<and>
   fst (pl_worker_step s9_finalized) = Blocks"
  by code_simp

text \<open>
  C8, amended.  Let the advancement of a work item that is tracked in the submitted-items
  table, has not failed and has no outstanding execution stand, after \<open>n\<close> declined
  stages, on the last stage (the item is to be submitted to it as the current stage, not
  as the reader of the stage before), and let that stage declare pairing.  Then the
  submission raises \<^verbatim>\<open>PipelineLastStageError\<close>: nothing is handed to an executor, and
  the error leaves \<^verbatim>\<open>_handle_stages_for_wi\<close> and the controller's loop over the
  items needing attention.  The handler of \<^verbatim>\<open>_pl_worker\<close> then finalizes the item by
  the failure cascade: \<^verbatim>\<open>PipelineLastStageError\<close> becomes the item's one failure and
  its completion handle is completed with that exception; the controller ends without
  a graceful shutdown.
\<close>

theorem last_stage_pairing_fails_item:
  assumes skip: "skip_declined n wi st = Some st2"
    and nonneg: "0 \<le> cur_stage (heap st wi)"
    and last: "cur_stage (heap st2 wi) = num_stages st2 - 1"
    and stage: "stages_at st2 (cur_stage (heap st2 wi)) = Inr s"
    and paired: "is_pipe_with_next_stage s"
    and unfailed: "\<not> is_failed (heap st wi)"
    and idle: "\<not> is_wi_still_running st wi"
    and table: "distinct (map fst (wi_to_wifut st))" "distinct (map snd (wi_to_wifut st))"
               "None \<notin> fst ` set (wi_to_wifut st)"
    and handle: "map_of (wi_to_wifut st) (Some wi) = Some uf" "futs st uf = Pending"
  shows "handle_stages_for_wi wi st = (Raises PipelineLastStageError, st2) \<and>
         check_completed (wi # rest) st = (Raises PipelineLastStageError, st2) \<and>
         submissions st2 = submissions st \<and>
         (\<exists>st'. pl_worker_guard (Raises PipelineLastStageError, st2)
                   = (Raises PipelineLastStageError, st') \<and>
                 exceptions (heap st' wi) = Some [PipelineLastStageError] \<and>
                 futs st' uf = Done_Exception PipelineLastStageError \<and>
                 was_graceful_shutdown st' = was_graceful_shutdown st)"
proof -
  note fr = skip_declined_frame [OF skip]
  have ns: "num_stages st2 = num_stages st"
    by (subst fr) (simp add: num_stages_def)
  have cur2: "cur_stage (heap st2 wi) = cur_stage (heap st wi) + int n"
    by (subst fr) simp
  have inrange: "cur_stage (heap st2 wi) < num_stages st2" using last by simp
  have loop2: "stages_loop wi st2 = (Raises PipelineLastStageError, st2)"
    by (subst stages_loop.simps)
       (simp add: inrange stage paired try_submit_to_dual_last_stage [OF last])
  have loop: "stages_loop wi st = (Raises PipelineLastStageError, st2)"
    using skip_declined_loop [OF skip] loop2 by simp
  have first: "\<not> (cur_stage (heap st wi) < 0 \<or> cur_stage (heap st wi) > num_stages st)"
    using nonneg inrange cur2 ns by simp
  have res: "handle_stages_for_wi wi st = (Raises PipelineLastStageError, st2)"
    using first by (simp add: handle_stages_for_wi_def and_then_def loop)
  have chk: "check_completed (wi # rest) st = (Raises PipelineLastStageError, st2)"
    using idle unfailed by (simp add: res)
  have sub: "submissions st2 = submissions st" by (subst fr) simp
  have tab2: "wi_to_wifut st2 = wi_to_wifut st" "futs st2 = futs st"
    "was_graceful_shutdown st2 = was_graceful_shutdown st"
    by (subst fr, simp)+
  have mem: "(Some wi, uf) \<in> set (wi_to_wifut st2)"
    using handle(1) tab2 by (simp add: map_of_SomeD)
  from fail_all_loop_spec [of "wi_to_wifut st2" PipelineLastStageError st2] table tab2
  obtain st5 where
    r: "fail_all_loop (wi_to_wifut st2) PipelineLastStageError st2 = (Returns (), st5)"
    and a: "\<forall>w f. (Some w, f) \<in> set (wi_to_wifut st2) \<and> futs st2 f = Pending \<longrightarrow>
                  futs st5 f = Done_Exception PipelineLastStageError \<and>
                  heap st5 w = append_exception (heap st2 w) PipelineLastStageError"
    and g5: "was_graceful_shutdown st5 = was_graceful_shutdown st2"
    by auto
  from a mem handle(2) tab2 have
    f5: "futs st5 uf = Done_Exception PipelineLastStageError"
    and h5: "heap st5 wi = append_exception (heap st2 wi) PipelineLastStageError"
    by auto
  define st6 where "st6 = worker_future_done (Done_Exception PipelineLastStageError) st5"
  have g: "pl_worker_guard (Raises PipelineLastStageError, st2)
             = (Raises PipelineLastStageError, st6)"
    by (simp add: pl_worker_guard_def fail_all_pending_def r st6_def)
  have f6: "futs st6 uf = Done_Exception PipelineLastStageError"
    using f5 by (simp add: st6_def worker_future_done_def split: option.splits)
  have h6: "heap st6 wi = append_exception (heap st2 wi) PipelineLastStageError"
    using h5 by (simp add: st6_def worker_future_done_def split: option.splits)
  have exs2: "exceptions (heap st2 wi) = exceptions (heap st wi)"
    by (subst fr) simp
  have e6: "exceptions (heap st6 wi) = Some [PipelineLastStageError]"
    using unfailed
    by (cases "exceptions (heap st wi)") (simp_all add: h6 append_exception_def exs2 is_failed_def)
  have g6: "was_graceful_shutdown st6 = was_graceful_shutdown st"
    using g5 tab2(3) by (simp add: st6_def worker_future_done_def split: option.splits)
  from res chk sub g e6 f6 g6 show ?thesis by blast
qed

lemma submit_keeps_stages:
  "stages (snd (submit w st)) = stages st"
  by (auto simp: submit_def internal_submit_def start_def and_then_def executor_submit_def
      new_Future_def set_result_def Let_def split: option.splits outcome.splits prod.splits)

lemma skip_one_declined:
  assumes "skip_declined 1 wi st \<noteq> None" and "cur_stage (heap st wi) = 0"
  shows "skip_declined 1 wi st = Some (st\<lparr>heap := (heap st)(wi := (heap st wi)\<lparr>cur_stage := 1\<rparr>)\<rparr>)"
proof -
  from assms(1) obtain x where x: "skip_declined 1 wi st = Some x" by auto
  from skip_declined_frame [OF x] assms(2) x show ?thesis by simp
qed

theorem predicate_exception_fails_and_finalizes_witness:
  "skip_declined 1 0 s7_submitted = Some s7_asked \<and>
   stages_at s7_asked (cur_stage (heap s7_asked 0)) = Inr raising_stage \<and>
   is_for_stage raising_stage (heap s7_asked 0) = Inl bad_predicate \<and>
   (\<exists>st'. handle_stages_for_wi 0 s7_submitted = (Returns (), st') \<and>
      exceptions (heap st' 0) = Some [bad_predicate] \<and>
      is_failed (heap st' 0) \<and>
      cur_stage (heap st' 0) = 3 \<and>
      map_of (wi_to_wifut st') (Some 0) = None \<and>
      futs st' 1 = Done_Result (ValWorkItem 0) \<and>
      submissions st' = [] \<and>
      running_wi_contexts st' = []) \<and>
   fst (pl_worker_step s7_submitted) = Returns Continue \<and>
   exceptions (heap (snd (pl_worker_step s7_submitted)) 0) = Some [bad_predicate] \<and>
   submissions (snd (pl_worker_step s7_submitted)) = []"
proof -
  have ne: "skip_declined 1 0 s7_submitted \<noteq> None" by code_simp
  have c0: "cur_stage (heap s7_submitted 0) = 0" by code_simp
  have skip: "skip_declined 1 0 s7_submitted = Some s7_asked"
    unfolding s7_asked_def using ne c0 by (rule skip_one_declined)
  have nonneg: "0 \<le> cur_stage (heap s7_submitted 0)" using c0 by simp
  have sts: "stages s7_asked = [declining_stage, raising_stage, thread_stage]"
    by (simp add: s7_asked_def s7_submitted_def submit_keeps_stages
        new_MultiprocessingPipeline_def)
  have c1: "cur_stage (heap s7_asked 0) = 1" by (simp add: s7_asked_def)
  have inrange: "cur_stage (heap s7_asked 0) < num_stages s7_asked"
    by (simp add: c1 num_stages_def sts)
  have stage: "stages_at s7_asked (cur_stage (heap s7_asked 0)) = Inr raising_stage"
    by (simp add: c1 stages_at_def num_stages_def sts)
  have pr: "is_for_stage raising_stage (heap s7_asked 0) = Inl bad_predicate"
    by (simp add: is_for_stage_def raising_stage_def raise_bad_def)
  have np: "\<not> is_pipe_with_next_stage raising_stage" by (simp add: raising_stage_def)
  have unfailed: "\<not> is_failed (heap s7_submitted 0)" by code_simp
  have idle: "\<not> is_wi_still_running s7_submitted 0" by code_simp
  have h1: "map_of (wi_to_wifut s7_submitted) (Some 0) = Some 1" by code_simp
  have h2: "futs s7_submitted 1 = Pending" by code_simp
  have n3: "num_stages s7_submitted = 3" by code_simp
  have s0: "submissions s7_submitted = []" by code_simp
  have r0: "running_wi_contexts s7_submitted = []" by code_simp
  from predicate_exception_fails_and_finalizes
    [OF skip nonneg inrange stage _ unfailed idle h1 h2, of bad_predicate thread_stage] np pr
  have "\<exists>st'. handle_stages_for_wi 0 s7_submitted = (Returns (), st') \<and>
      exceptions (heap st' 0) = Some [bad_predicate] \<and>
      is_failed (heap st' 0) \<and>
      cur_stage (heap st' 0) = 3 \<and>
      map_of (wi_to_wifut st') (Some 0) = None \<and>
      futs st' 1 = Done_Result (ValWorkItem 0) \<and>
      submissions st' = [] \<and>
      running_wi_contexts st' = []"
    by (auto simp: n3 s0 r0)
  moreover have "fst (pl_worker_step s7_submitted) = Returns Continue" by code_simp
  moreover have "exceptions (heap (snd (pl_worker_step s7_submitted)) 0) = Some [bad_predicate]"
    by code_simp
  moreover have "submissions (snd (pl_worker_step s7_submitted)) = []" by code_simp
  ultimately show ?thesis using skip stage pr by blast
qed

theorem last_stage_pairing_fails_item_witness:
  "skip_declined 1 0 s8_submitted = Some s8_asked \<and>
   cur_stage (heap s8_asked 0) = num_stages s8_asked - 1 \<and>
   stages_at s8_asked (cur_stage (heap s8_asked 0)) = Inr pairing_stage \<and>
   is_pipe_with_next_stage pairing_stage \<and>
   handle_stages_for_wi 0 s8_submitted = (Raises PipelineLastStageError, s8_asked) \<and>
   check_completed [0] s8_submitted = (Raises PipelineLastStageError, s8_asked) \<and>
   submissions s8_asked = [] \<and>
   (\<exists>st'. pl_worker_guard (Raises PipelineLastStageError, s8_asked)
             = (Raises PipelineLastStageError, st') \<and>
           exceptions (heap st' 0) = Some [PipelineLastStageError] \<and>
           futs st' 1 = Done_Exception PipelineLastStageError \<and>
           \<not> was_graceful_shutdown st') \<and>
   fst (pl_worker_step s8_submitted) = Raises PipelineLastStageError \<and>
   exceptions (heap (snd (pl_worker_step s8_submitted)) 0) = Some [PipelineLastStageError] \<and>
   futs (snd (pl_worker_step s8_submitted)) 1 = Done_Exception PipelineLastStageError"
proof -
  have ne: "skip_declined 1 0 s8_submitted \<noteq> None" by code_simp
  have c0: "cur_stage (heap s8_submitted 0) = 0" by code_simp
  have skip: "skip_declined 1 0 s8_submitted = Some s8_asked"
    unfolding s8_asked_def using ne c0 by (rule skip_one_declined)
  have nonneg: "0 \<le> cur_stage (heap s8_submitted 0)" using c0 by simp
  have sts: "stages s8_asked = [declining_stage, pairing_stage]"
    by (simp add: s8_asked_def s8_submitted_def submit_keeps_stages
        new_MultiprocessingPipeline_def)
  have c1: "cur_stage (heap s8_asked 0) = 1" by (simp add: s8_asked_def)
  have last: "cur_stage (heap s8_asked 0) = num_stages s8_asked - 1"
    by (simp add: c1 num_stages_def sts)
  have stage: "stages_at s8_asked (cur_stage (heap s8_asked 0)) = Inr pairing_stage"
    by (simp add: c1 stages_at_def num_stages_def sts)
  have paired: "is_pipe_with_next_stage pairing_stage" by (simp add: pairing_stage_def)
  have unfailed: "\<not> is_failed (heap s8_submitted 0)" by code_simp
  have idle: "\<not> is_wi_still_running s8_submitted 0" by code_simp
  have t1: "distinct (map fst (wi_to_wifut s8_submitted))" by code_simp
  have t2: "distinct (map snd (wi_to_wifut s8_submitted))" by code_simp
  have t3: "None \<notin> fst ` set (wi_to_wifut s8_submitted)" by code_simp
  have h1: "map_of (wi_to_wifut s8_submitted) (Some 0) = Some 1" by code_simp
  have h2: "futs s8_submitted 1 = Pending" by code_simp
  have s0: "submissions s8_submitted = []" by code_simp
  have g0: "\<not> was_graceful_shutdown s8_submitted" by code_simp
  note t = last_stage_pairing_fails_item
    [OF skip nonneg last stage paired unfailed idle t1 t2 t3 h1 h2, of "[]"]
  from t s0 g0 have
    "handle_stages_for_wi 0 s8_submitted = (Raises PipelineLastStageError, s8_asked) \<and>
     check_completed [0] s8_submitted = (Raises PipelineLastStageError, s8_asked) \<and>
     submissions s8_asked = [] \<and>
     (\<exists>st'. pl_worker_guard (Raises PipelineLastStageError, s8_asked)
             = (Raises PipelineLastStageError, st') \<and>
           exceptions (heap st' 0) = Some [PipelineLastStageError] \<and>
           futs st' 1 = Done_Exception PipelineLastStageError \<and>
           \<not> was_graceful_shutdown st')"
    by simp
  moreover have "fst (pl_worker_step s8_submitted) = Raises PipelineLastStageError"
    by code_simp
  moreover have "exceptions (heap (snd (pl_worker_step s8_submitted)) 0)
                   = Some [PipelineLastStageError]"
    by code_simp
  moreover have "futs (snd (pl_worker_step s8_submitted)) 1
                   = Done_Exception PipelineLastStageError"
    by code_simp
  ultimately show ?thesis using skip last stage paired by blast
qed

section \<open>The controller's tables stay consistent\<close>

text \<open>
  Every operation of the controller is followed through the two tables: most operations
  are quiet, the scan of the outstanding executions closes and forgets the endpoints of the
  futures that are done, the handling of a settled future removes one context, and the
  submission to a stage adds contexts with fresh futures (and, for a paired stage, two
  fresh endpoints) to an item that has none.
\<close>

lemma quiet_refl: "quiet st st"
  by (simp add: quiet_def)

lemma quiet_trans: "quiet a b \<Longrightarrow> quiet b c \<Longrightarrow> quiet a c"
  by (auto simp: quiet_def)

lemma ctx_inv_quiet: "ctx_inv st \<Longrightarrow> quiet st st' \<Longrightarrow> ctx_inv st'"
  unfolding ctx_inv_def quiet_def by (simp; fastforce)

lemma conn_inv_quiet: "conn_inv st \<Longrightarrow> quiet st st' \<Longrightarrow> conn_inv st'"
  unfolding conn_inv_def quiet_def tracked_def by (simp; fastforce)

lemma new_Future_quiet: "new_Future st = (r, st') \<Longrightarrow> quiet st st'"
  by (auto simp: new_Future_def quiet_def)

lemma set_result_quiet: "set_result f v st = (r, st') \<Longrightarrow> quiet st st'"
  by (auto simp: set_result_def quiet_def split: if_splits)

lemma set_exception_quiet: "set_exception f e st = (r, st') \<Longrightarrow> quiet st st'"
  by (auto simp: set_exception_def quiet_def split: if_splits)

lemma executor_submit_quiet: "executor_submit ex st = (r, st') \<Longrightarrow> quiet st st'"
  by (auto simp: executor_submit_def new_Future_def quiet_def split: if_splits)

lemma get_queued_wi_quiet: "get_queued_wi st = (r, st') \<Longrightarrow> quiet st st'"
  by (auto simp: get_queued_wi_def quiet_def split: list.splits)

lemma is_stage_for_work_item_quiet: "is_stage_for_work_item wi k st = (r, st') \<Longrightarrow> quiet st st'"
  by (auto simp: is_stage_for_work_item_def quiet_def Let_def split: sum.splits)

lemma past_last_stage_if_failed_quiet: "quiet st (past_last_stage_if_failed wi st)"
  by (simp add: past_last_stage_if_failed_def quiet_def)

lemma set_wi_to_finished_quiet: "set_wi_to_finished wi st = (r, st') \<Longrightarrow> quiet st st'"
  by (auto simp: set_wi_to_finished_def set_result_def quiet_def split: if_splits option.splits)

lemma fail_all_loop_quiet: "fail_all_loop l ex st = (r, st') \<Longrightarrow> quiet st st'"
proof (induction l ex st rule: fail_all_loop.induct)
  case (1 ex st)
  then show ?case by (simp add: quiet_def)
next
  case (2 wi wifut rest ex st)
  show ?case
  proof (cases "fut_done st wifut")
    case True
    with 2 show ?thesis by simp
  next
    case False
    show ?thesis
    proof (cases wi)
      case None
      with 2 False show ?thesis by (simp add: quiet_def)
    next
      case (Some w)
      let ?s0 = "st\<lparr>heap := (heap st)(w := append_exception (heap st w) ex)\<rparr>"
      obtain r1 st1 where s: "set_exception wifut ex ?s0 = (r1, st1)"
        by (cases "set_exception wifut ex ?s0")
      have q1: "quiet st st1"
        using set_exception_quiet [OF s] by (simp add: quiet_def)
      show ?thesis
      proof (cases r1)
        case (Returns u)
        with 2 False Some s have "quiet st1 st'" by simp
        with q1 show ?thesis by (rule quiet_trans)
      next
        case (Raises e)
        with 2 False Some s q1 show ?thesis by simp
      next
        case Blocks
        with 2 False Some s q1 show ?thesis by simp
      qed
    qed
  qed
qed

lemma worker_future_done_quiet: "quiet st (worker_future_done r st)"
  by (simp add: worker_future_done_def quiet_def split: option.splits)

lemma start_quiet: "start st = (r, st') \<Longrightarrow> quiet st st'"
  by (auto simp: start_def and_then_def executor_submit_def new_Future_def quiet_def
      split: if_splits)

lemma internal_submit_quiet: "internal_submit w st = (r, st') \<Longrightarrow> quiet st st'"
  by (auto simp: internal_submit_def start_def and_then_def executor_submit_def new_Future_def
      set_result_def quiet_def Let_def split: if_splits option.splits)

lemma submit_quiet: "submit w st = (r, st') \<Longrightarrow> quiet st st'"
  by (auto simp: submit_def quiet_refl dest: internal_submit_quiet split: if_splits)

lemma shutdown_begin_quiet: "shutdown_begin st = (r, st') \<Longrightarrow> quiet st st'"
  by (auto simp: shutdown_begin_def and_then_def quiet_refl dest: internal_submit_quiet
      split: if_splits outcome.splits prod.splits)

lemma shutdown_join_quiet: "shutdown_join st = (r, st') \<Longrightarrow> quiet st st'"
  by (auto simp: shutdown_join_def executor_shutdown_def quiet_def
      split: option.splits fut_state.splits)

lemma cleanup_frame:
  "running_wi_contexts (cleanup_pipe_connections f st) = running_wi_contexts st"
  "next_fut (cleanup_pipe_connections f st) = next_fut st"
  "next_conn (cleanup_pipe_connections f st) = next_conn st"
  "input_queue_fut (cleanup_pipe_connections f st) = input_queue_fut st"
  "futs (cleanup_pipe_connections f st) = futs st"
  by (simp_all add: cleanup_pipe_connections_def split: option.splits)

lemma cleanup_table:
  "fut_to_pipe_conn (cleanup_pipe_connections f st) = (fut_to_pipe_conn st)(f := None)"
  by (auto simp: cleanup_pipe_connections_def split: option.splits)

lemma cleanup_calls:
  "conn_close_calls (cleanup_pipe_connections f st) c =
     (if fut_to_pipe_conn st f = Some c then Suc (conn_close_calls st c)
      else conn_close_calls st c)"
  by (auto simp: cleanup_pipe_connections_def split: option.splits)

lemma cleanup_conn_inv:
  assumes "conn_inv st"
  shows "conn_inv (cleanup_pipe_connections f st)"
proof -
  let ?st = "cleanup_pipe_connections f st"
  from assms have
    a: "\<And>g c. fut_to_pipe_conn st g = Some c \<Longrightarrow>
          c < next_conn st \<and> conn_close_calls st c = 0 \<and> g < next_fut st \<and> tracked st g"
    and i: "inj_on (fut_to_pipe_conn st) (dom (fut_to_pipe_conn st))"
    and le: "\<And>c. conn_close_calls st c \<le> 1"
    and fresh: "\<And>c. next_conn st \<le> c \<Longrightarrow> conn_close_calls st c = 0"
    and inp: "\<And>g. input_queue_fut st = Some g \<Longrightarrow> fut_to_pipe_conn st g = None \<and> g < next_fut st"
    unfolding conn_inv_def by blast+
  have tr: "\<And>g. tracked ?st g = tracked st g"
    by (simp add: tracked_def cleanup_frame)
  have 1: "\<forall>g c. fut_to_pipe_conn ?st g = Some c \<longrightarrow>
         c < next_conn ?st \<and> conn_close_calls ?st c = 0 \<and> g < next_fut ?st \<and> tracked ?st g"
  proof (intro allI impI)
    fix g c assume h: "fut_to_pipe_conn ?st g = Some c"
    then have gf: "g \<noteq> f" and g: "fut_to_pipe_conn st g = Some c"
      by (auto simp: cleanup_table split: if_splits)
    have "fut_to_pipe_conn st f \<noteq> Some c"
    proof
      assume "fut_to_pipe_conn st f = Some c"
      with g i have "f = g" by (auto simp: inj_on_def dom_def)
      with gf show False by simp
    qed
    with a [OF g] show "c < next_conn ?st \<and> conn_close_calls ?st c = 0 \<and> g < next_fut ?st \<and> tracked ?st g"
      by (simp add: cleanup_frame cleanup_calls tr)
  qed
  have 2: "inj_on (fut_to_pipe_conn ?st) (dom (fut_to_pipe_conn ?st))"
    using i by (auto simp: cleanup_table inj_on_def dom_def split: if_splits)
  have 3: "\<forall>c. conn_close_calls ?st c \<le> 1"
    using le a by (auto simp: cleanup_calls)
  have 4: "\<forall>c. next_conn ?st \<le> c \<longrightarrow> conn_close_calls ?st c = 0"
    using fresh a by (fastforce simp: cleanup_calls cleanup_frame)
  have 5: "\<forall>g. input_queue_fut ?st = Some g \<longrightarrow> fut_to_pipe_conn ?st g = None \<and> g < next_fut ?st"
    using inp by (simp add: cleanup_frame cleanup_table)
  from 1 2 3 4 5 show ?thesis unfolding conn_inv_def by blast
qed

lemma fold_cleanup_frame:
  "running_wi_contexts (fold cleanup_pipe_connections fs st) = running_wi_contexts st"
  "next_fut (fold cleanup_pipe_connections fs st) = next_fut st"
  "futs (fold cleanup_pipe_connections fs st) = futs st"
  "input_queue_fut (fold cleanup_pipe_connections fs st) = input_queue_fut st"
  "next_conn (fold cleanup_pipe_connections fs st) = next_conn st"
  by (induction fs arbitrary: st) (simp_all add: cleanup_frame)

lemma fold_cleanup_table:
  "fut_to_pipe_conn (fold cleanup_pipe_connections fs st) g =
     (if g \<in> set fs then None else fut_to_pipe_conn st g)"
  by (induction fs arbitrary: st) (auto simp: cleanup_table)

lemma fold_cleanup_conn_inv:
  "conn_inv st \<Longrightarrow> conn_inv (fold cleanup_pipe_connections fs st)"
  by (induction fs arbitrary: st) (simp_all add: cleanup_conn_inv)

lemma fold_cleanup_ctx_inv:
  "ctx_inv st \<Longrightarrow> ctx_inv (fold cleanup_pipe_connections fs st)"
  by (simp add: ctx_inv_def fold_cleanup_frame)

lemma fut_done_fold_cleanup:
  "fut_done (fold cleanup_pipe_connections fs st) = fut_done st"
  by (simp add: fut_done_def fun_eq_iff fold_cleanup_frame)

lemma pending_filter:
  "filter (\<lambda>f. f \<notin> set (filter P xs)) xs = filter (\<lambda>f. \<not> P f) xs"
  by (rule filter_cong) auto

lemma scan_contexts_spec:
  "scan_contexts cs d p st =
     ((d @ concat (map (\<lambda>l. if \<forall>c \<in> set l. fut_done st (ctx_fut c)
                            then map ctx_fut l else []) cs),
       p @ concat (map (\<lambda>l. if \<forall>c \<in> set l. fut_done st (ctx_fut c)
                            then [] else filter (\<lambda>f. \<not> fut_done st f) (map ctx_fut l)) cs)),
      fold cleanup_pipe_connections
        (filter (fut_done st) (concat (map (map ctx_fut) cs))) st)"
proof (induction cs arbitrary: d p st)
  case Nil
  then show ?case by simp
next
  case (Cons l cs)
  have e: "(filter (\<lambda>f. \<not> fut_done st f) (map ctx_fut l) = [])
             = (\<forall>c \<in> set l. fut_done st (ctx_fut c))"
    by (auto simp: filter_empty_conv)
  show ?case
    by (simp add: Let_def pending_filter e Cons.IH fut_done_fold_cleanup del: set_filter
        cong: if_cong)
qed

lemma ctx_inv_frame:
  assumes "ctx_inv st" and "running_wi_contexts st' = running_wi_contexts st"
    and "next_fut st \<le> next_fut st'"
  shows "ctx_inv st'"
  using assms unfolding ctx_inv_def by (simp; fastforce)

lemma conn_inv_mono:
  assumes "conn_inv st"
    and "fut_to_pipe_conn st' = fut_to_pipe_conn st"
    and "conn_close_calls st' = conn_close_calls st"
    and "next_conn st \<le> next_conn st'" and "next_fut st \<le> next_fut st'"
    and "input_queue_fut st' = input_queue_fut st"
    and "\<And>g c. fut_to_pipe_conn st g = Some c \<Longrightarrow> tracked st g \<Longrightarrow> tracked st' g"
  shows "conn_inv st'"
  using assms unfolding conn_inv_def
  by (simp; metis (no_types, lifting) le_trans less_le_trans)

lemma sorted_wrt_remove1:
  "sorted_wrt P xs \<Longrightarrow> sorted_wrt P (remove1 x xs)"
  by (induction xs) auto

lemma distinct_map_remove1:
  assumes "distinct (map f xs)"
  shows "distinct (map f (remove1 x xs))"
proof -
  from assms have "distinct xs" "inj_on f (set xs)"
    by (simp_all add: distinct_map)
  then have "distinct (remove1 x xs)" "inj_on f (set (remove1 x xs))"
    using set_remove1_subset [of x xs] by (auto intro: inj_on_subset)
  then show ?thesis by (simp add: distinct_map)
qed

lemma sorted_wrt_map_remove1:
  "sorted_wrt P (map f xs) \<Longrightarrow> sorted_wrt P (map f (remove1 x xs))"
  by (simp add: sorted_wrt_map sorted_wrt_remove1)

lemma shrink_map_of:
  "map_of (if cs' = [] then AList.delete wi R else AList.update wi cs' R) =
     (if cs' = [] then (map_of R)(wi := None) else (map_of R)(wi \<mapsto> cs'))"
  by (simp add: delete_conv' update_conv')

lemma shrink_ctx_inv:
  assumes "ctx_inv st"
    and "map_of (running_wi_contexts st) wi = Some cs"
    and "cs' = cs \<or> (\<exists>c. cs' = remove1 c cs)"
    and "running_wi_contexts st' =
           (if cs' = [] then AList.delete wi (running_wi_contexts st)
            else AList.update wi cs' (running_wi_contexts st))"
    and "next_fut st \<le> next_fut st'"
  shows "ctx_inv st'"
proof -
  let ?R = "running_wi_contexts st"
  from assms(1) have
    d: "distinct (map fst ?R)"
    and e: "\<And>w l. map_of ?R w = Some l \<Longrightarrow>
         distinct (map ctx_fut l) \<and> sorted_wrt (<) (map ctx_cur_stage l) \<and>
         (\<forall>c \<in> set l. ctx_fut c < next_fut st)"
    and x: "\<And>w w' l l'. w \<noteq> w' \<Longrightarrow> map_of ?R w = Some l \<Longrightarrow> map_of ?R w' = Some l' \<Longrightarrow>
         ctx_fut ` set l \<inter> ctx_fut ` set l' = {}"
    unfolding ctx_inv_def by blast+
  have sub: "set cs' \<subseteq> set cs"
    using assms(3) set_remove1_subset by fastforce
  have g1: "distinct (map ctx_fut cs')"
    using e [OF assms(2)] assms(3) by (auto simp: distinct_map_remove1)
  have g2: "sorted_wrt (<) (map ctx_cur_stage cs')"
    using e [OF assms(2)] assms(3) by (auto simp: sorted_wrt_map_remove1)
  have g3: "\<forall>c \<in> set cs'. ctx_fut c < next_fut st'"
  proof
    fix c assume "c \<in> set cs'"
    with sub have "c \<in> set cs" by blast
    with e [OF assms(2)] have "ctx_fut c < next_fut st" by blast
    with assms(5) show "ctx_fut c < next_fut st'" by simp
  qed
  note good = conjI [OF g1 conjI [OF g2 g3]]
  have m: "map_of (running_wi_contexts st') =
             (if cs' = [] then (map_of ?R)(wi := None) else (map_of ?R)(wi \<mapsto> cs'))"
    by (simp add: assms(4) shrink_map_of)
  have 1: "distinct (map fst (running_wi_contexts st'))"
    using d by (simp add: assms(4) distinct_delete distinct_update)
  have 2: "\<forall>w l. map_of (running_wi_contexts st') w = Some l \<longrightarrow>
         distinct (map ctx_fut l) \<and> sorted_wrt (<) (map ctx_cur_stage l) \<and>
         (\<forall>c \<in> set l. ctx_fut c < next_fut st')"
  proof (intro allI impI)
    fix w l assume h: "map_of (running_wi_contexts st') w = Some l"
    show "distinct (map ctx_fut l) \<and> sorted_wrt (<) (map ctx_cur_stage l) \<and>
         (\<forall>c \<in> set l. ctx_fut c < next_fut st')"
    proof (cases "w = wi")
      case True
      with h m have "l = cs'" by (auto split: if_splits)
      with good show ?thesis by simp
    next
      case False
      with h m have "map_of ?R w = Some l" by (auto split: if_splits)
      from e [OF this] assms(5) show ?thesis by fastforce
    qed
  qed
  have look: "\<And>w l. map_of (running_wi_contexts st') w = Some l \<Longrightarrow>
                \<exists>l0. map_of ?R w = Some l0 \<and> set l \<subseteq> set l0"
    using m assms(2) sub by (auto split: if_splits)
  have 3: "\<forall>w w' l l'. w \<noteq> w' \<and> map_of (running_wi_contexts st') w = Some l \<and>
         map_of (running_wi_contexts st') w' = Some l' \<longrightarrow>
         ctx_fut ` set l \<inter> ctx_fut ` set l' = {}"
  proof (intro allI impI)
    fix w w' l l'
    assume h: "w \<noteq> w' \<and> map_of (running_wi_contexts st') w = Some l \<and>
         map_of (running_wi_contexts st') w' = Some l'"
    from h look obtain l0 where l0: "map_of ?R w = Some l0" "set l \<subseteq> set l0" by blast
    from h look obtain l1 where l1: "map_of ?R w' = Some l1" "set l' \<subseteq> set l1" by blast
    from x [OF _ l0(1) l1(1)] h have "ctx_fut ` set l0 \<inter> ctx_fut ` set l1 = {}" by simp
    with l0(2) l1(2) show "ctx_fut ` set l \<inter> ctx_fut ` set l' = {}" by blast
  qed
  from 1 2 3 show ?thesis unfolding ctx_inv_def by blast
qed

lemma shrink_tracked:
  assumes "tracked st g"
    and "map_of (running_wi_contexts st) wi = Some cs"
    and "cs' = cs \<or> (\<exists>c \<in> set cs. ctx_fut c = f \<and> cs' = remove1 c cs)"
    and "running_wi_contexts st' =
           (if cs' = [] then AList.delete wi (running_wi_contexts st)
            else AList.update wi cs' (running_wi_contexts st))"
    and "g \<noteq> f"
  shows "tracked st' g"
proof -
  let ?R = "running_wi_contexts st"
  have m: "map_of (running_wi_contexts st') =
             (if cs' = [] then (map_of ?R)(wi := None) else (map_of ?R)(wi \<mapsto> cs'))"
    by (simp add: assms(4) shrink_map_of)
  from assms(1) obtain w l c0 where
    w: "map_of ?R w = Some l" "c0 \<in> set l" "g = ctx_fut c0"
    unfolding tracked_def by blast
  show ?thesis
  proof (cases "w = wi")
    case False
    with w m have "map_of (running_wi_contexts st') w = Some l" by simp
    with w show ?thesis unfolding tracked_def by blast
  next
    case True
    with w assms(2) have lc: "l = cs" by simp
    have "c0 \<in> set cs'"
    proof (cases "cs' = cs")
      case True
      with w lc show ?thesis by simp
    next
      case False
      with assms(3) obtain c where c: "c \<in> set cs" "ctx_fut c = f" "cs' = remove1 c cs"
        by blast
      with assms(5) w(3) have "c0 \<noteq> c" by auto
      with c w lc show ?thesis by simp
    qed
    then have "cs' \<noteq> []" "map_of (running_wi_contexts st') wi = Some cs'"
      using m by auto
    with \<open>c0 \<in> set cs'\<close> w(3) show ?thesis unfolding tracked_def by blast
  qed
qed

lemma get_completed_shape:
  assumes "get_completed_work_item_info f st = (r, st')"
  shows "fut_to_pipe_conn st' = fut_to_pipe_conn st \<and>
         conn_close_calls st' = conn_close_calls st \<and>
         next_conn st' = next_conn st \<and> next_fut st' = next_fut st \<and>
         input_queue_fut st' = input_queue_fut st \<and>
         (running_wi_contexts st' = running_wi_contexts st \<or>
          (\<exists>wi cs cs'. map_of (running_wi_contexts st) wi = Some cs \<and>
             (cs' = cs \<or> (\<exists>c \<in> set cs. ctx_fut c = f \<and> cs' = remove1 c cs)) \<and>
             running_wi_contexts st' =
               (if cs' = [] then AList.delete wi (running_wi_contexts st)
                else AList.update wi cs' (running_wi_contexts st))))"
proof (cases "plfut_to_wi st f")
  case None
  with assms show ?thesis by (simp add: get_completed_work_item_info_def)
next
  case (Some wi)
  show ?thesis
  proof (cases "map_of (running_wi_contexts st) wi")
    case None
    with Some assms show ?thesis
      by (auto simp: get_completed_work_item_info_def Let_def)
  next
    case cs: (Some cs)
    show ?thesis
    proof (cases "find (\<lambda>c. ctx_fut c = f) cs")
      case None
      with Some cs assms have
        "running_wi_contexts st' =
           (if cs = [] then AList.delete wi (running_wi_contexts st)
            else AList.update wi cs (running_wi_contexts st))"
        and "fut_to_pipe_conn st' = fut_to_pipe_conn st \<and>
         conn_close_calls st' = conn_close_calls st \<and>
         next_conn st' = next_conn st \<and> next_fut st' = next_fut st \<and>
         input_queue_fut st' = input_queue_fut st"
        by (auto simp: get_completed_work_item_info_def Let_def split: if_splits)
      with cs show ?thesis by blast
    next
      case c: (Some c)
      then have cin: "c \<in> set cs" "ctx_fut c = f"
        by (auto simp: find_Some_iff)
      from Some cs c assms have
        "running_wi_contexts st' =
           (if remove1 c cs = [] then AList.delete wi (running_wi_contexts st)
            else AList.update wi (remove1 c cs) (running_wi_contexts st))"
        and "fut_to_pipe_conn st' = fut_to_pipe_conn st \<and>
         conn_close_calls st' = conn_close_calls st \<and>
         next_conn st' = next_conn st \<and> next_fut st' = next_fut st \<and>
         input_queue_fut st' = input_queue_fut st"
        by (auto simp: get_completed_work_item_info_def Let_def split: if_splits)
      with cs cin show ?thesis by blast
    qed
  qed
qed

lemma get_completed_inv:
  assumes "tables_inv st" and "fut_to_pipe_conn st f = None"
    and "get_completed_work_item_info f st = (r, st')"
  shows "tables_inv st'"
proof -
  note sh = get_completed_shape [OF assms(3)]
  from sh have fr: "fut_to_pipe_conn st' = fut_to_pipe_conn st"
    "conn_close_calls st' = conn_close_calls st"
    "next_conn st' = next_conn st" "next_fut st' = next_fut st"
    "input_queue_fut st' = input_queue_fut st" by simp_all
  from sh consider
    (same) "running_wi_contexts st' = running_wi_contexts st"
    | (shrunk) wi cs cs' where "map_of (running_wi_contexts st) wi = Some cs"
        "cs' = cs \<or> (\<exists>c \<in> set cs. ctx_fut c = f \<and> cs' = remove1 c cs)"
        "running_wi_contexts st' =
               (if cs' = [] then AList.delete wi (running_wi_contexts st)
                else AList.update wi cs' (running_wi_contexts st))"
    by blast
  then show ?thesis
  proof cases
    case same
    have "ctx_inv st'" using assms(1) same fr by (auto simp: tables_inv_def intro: ctx_inv_frame)
    moreover have "conn_inv st'"
      using assms(1) fr same
      by (intro conn_inv_mono [of st st']) (simp_all add: tables_inv_def tracked_def)
    ultimately show ?thesis by (simp add: tables_inv_def)
  next
    case shrunk
    have "ctx_inv st'"
      using assms(1) shrunk fr by (intro shrink_ctx_inv [of st wi cs cs' st']) (auto simp: tables_inv_def)
    moreover have "conn_inv st'"
    proof (rule conn_inv_mono [of st st'])
      show "conn_inv st" using assms(1) by (simp add: tables_inv_def)
    next
      fix g c assume "fut_to_pipe_conn st g = Some c" "tracked st g"
      with assms(2) have "g \<noteq> f" by auto
      with \<open>tracked st g\<close> shrunk show "tracked st' g"
        by (intro shrink_tracked [of st g wi cs cs' f st']) auto
    qed (simp_all add: fr)
    ultimately show ?thesis by (simp add: tables_inv_def)
  qed
qed

lemma tables_inv_heap_update: "tables_inv (st\<lparr>heap := h\<rparr>) = tables_inv st"
  by (simp add: tables_inv_def ctx_inv_def conn_inv_def tracked_def)

lemma tables_inv_quiet: "tables_inv st \<Longrightarrow> quiet st st' \<Longrightarrow> tables_inv st'"
  by (auto simp: tables_inv_def intro: ctx_inv_quiet conn_inv_quiet)

lemma handle_completed_fut_inv:
  assumes "tables_inv st" and "fut_to_pipe_conn st f = None"
    and "handle_completed_fut f st = (r, st')"
  shows "tables_inv st' \<and> fut_to_pipe_conn st' = fut_to_pipe_conn st"
proof (cases "plfut_to_wi st f \<noteq> None")
  case True
  obtain r1 st1 where g: "get_completed_work_item_info f st = (r1, st1)"
    by (cases "get_completed_work_item_info f st")
  have i1: "tables_inv st1" using assms(1,2) g by (rule get_completed_inv)
  have t1: "fut_to_pipe_conn st1 = fut_to_pipe_conn st"
    using get_completed_shape [OF g] by simp
  from assms(3) True g have "st' = st1 \<or> (\<exists>h. st' = st1\<lparr>heap := h\<rparr>)"
    by (auto simp: handle_completed_fut_def
        split: outcome.splits fut_state.splits fut_value.splits prod.splits)
  with i1 t1 show ?thesis by (auto simp: tables_inv_heap_update)
next
  case False
  let ?s = "st\<lparr>anomalies := anomalies st @ [InvalidStateError]\<rparr>"
  have q: "quiet st ?s" by (simp add: quiet_def)
  from assms(3) False have "get_queued_wi st = (r, st') \<or> get_queued_wi ?s = (r, st')"
    by (auto simp: handle_completed_fut_def split: if_splits)
  then have "quiet st st'"
    using get_queued_wi_quiet q quiet_trans by blast
  with assms(1) show ?thesis by (auto simp: quiet_def intro: tables_inv_quiet)
qed

lemma handle_done_futs_inv:
  assumes "tables_inv st" and "\<forall>f \<in> set fs. fut_to_pipe_conn st f = None"
    and "handle_done_futs fs att sd st = (r, st')"
  shows "tables_inv st'"
  using assms
proof (induction fs arbitrary: att sd st)
  case Nil
  then show ?case by simp
next
  case (Cons f fs)
  obtain r1 st1 where h: "handle_completed_fut f st = (r1, st1)"
    by (cases "handle_completed_fut f st")
  from Cons.prems(1,2) h have i1: "tables_inv st1" "fut_to_pipe_conn st1 = fut_to_pipe_conn st"
    using handle_completed_fut_inv [of st f r1 st1] by simp_all
  show ?case
  proof (cases r1)
    case (Returns x)
    obtain wi sd1 where x: "x = (wi, sd1)" by (cases x)
    from Cons.prems(3) h Returns x obtain att' where
      "handle_done_futs fs att' (sd \<or> sd1) st1 = (r, st')" by simp
    with Cons.IH [OF i1(1)] Cons.prems(2) i1(2) show ?thesis by simp
  next
    case (Raises e)
    with Cons.prems(3) h i1 show ?thesis by simp
  next
    case Blocks
    with Cons.prems(3) h i1 show ?thesis by simp
  qed
qed

lemma submit_to_stage_shape:
  assumes "submit_to_stage s wi pc b st = (r, st')"
  shows "fut_to_pipe_conn st' = fut_to_pipe_conn st \<and>
         conn_close_calls st' = conn_close_calls st \<and>
         next_conn st' = next_conn st \<and>
         input_queue_fut st' = input_queue_fut st \<and>
         heap st' = heap st \<and>
         next_fut st \<le> next_fut st' \<and>
         (case r of
            Returns f \<Rightarrow>
              f = next_fut st \<and> next_fut st' = Suc (next_fut st) \<and>
              running_wi_contexts st' =
                AList.update wi
                  (contexts_of st wi @
                     [\<lparr>ctx_cur_stage = cur_stage (heap st wi), ctx_fut = next_fut st,
                       ctx_wi = wi\<rparr>])
                  (running_wi_contexts st)
          | Raises e \<Rightarrow> running_wi_contexts st' = running_wi_contexts st
          | Blocks \<Rightarrow> running_wi_contexts st' = running_wi_contexts st)"
  using assms
  by (auto simp: submit_to_stage_def and_then_def executor_submit_def new_Future_def
      track_running_pipeline_work_def contexts_of_def Let_def
      split: sum.splits if_splits outcome.splits prod.splits)

lemma grow_map_of:
  "map_of (AList.update wi cs' R) = (map_of R)(wi \<mapsto> cs')"
  by (simp add: update_conv')

lemma contexts_of_bound:
  assumes "ctx_inv st" and "c \<in> set (contexts_of st w)"
  shows "ctx_fut c < next_fut st"
  using assms unfolding ctx_inv_def contexts_of_def
  by (auto split: option.splits)

lemma grow_ctx_inv:
  assumes "ctx_inv st"
    and "\<forall>c \<in> set (contexts_of st wi). ctx_cur_stage c < k"
    and "running_wi_contexts st' =
           AList.update wi
             (contexts_of st wi @ [\<lparr>ctx_cur_stage = k, ctx_fut = next_fut st, ctx_wi = wi\<rparr>])
             (running_wi_contexts st)"
    and "next_fut st < next_fut st'"
  shows "ctx_inv st'"
proof -
  let ?R = "running_wi_contexts st"
  let ?c = "\<lparr>ctx_cur_stage = k, ctx_fut = next_fut st, ctx_wi = wi\<rparr>"
  let ?cs = "contexts_of st wi"
  from assms(1) have
    d: "distinct (map fst ?R)"
    and e: "\<And>w l. map_of ?R w = Some l \<Longrightarrow>
         distinct (map ctx_fut l) \<and> sorted_wrt (<) (map ctx_cur_stage l) \<and>
         (\<forall>c \<in> set l. ctx_fut c < next_fut st)"
    and x: "\<And>w w' l l'. w \<noteq> w' \<Longrightarrow> map_of ?R w = Some l \<Longrightarrow> map_of ?R w' = Some l' \<Longrightarrow>
         ctx_fut ` set l \<inter> ctx_fut ` set l' = {}"
    unfolding ctx_inv_def by blast+
  have m: "map_of (running_wi_contexts st') = (map_of ?R)(wi \<mapsto> ?cs @ [?c])"
    by (simp add: assms(3) grow_map_of)
  have old: "distinct (map ctx_fut ?cs) \<and> sorted_wrt (<) (map ctx_cur_stage ?cs) \<and>
         (\<forall>c \<in> set ?cs. ctx_fut c < next_fut st)"
    using e by (auto simp: contexts_of_def split: option.splits)
  have other: "\<And>w l. w \<noteq> wi \<Longrightarrow> map_of ?R w = Some l \<Longrightarrow>
                 ctx_fut ` set l \<inter> ctx_fut ` set ?cs = {}"
  proof -
    fix w l assume w: "w \<noteq> wi" "map_of ?R w = Some l"
    show "ctx_fut ` set l \<inter> ctx_fut ` set ?cs = {}"
    proof (cases "map_of ?R wi")
      case None
      then show ?thesis by (simp add: contexts_of_def)
    next
      case (Some l0)
      from x [OF w(1) w(2) Some] Some show ?thesis by (simp add: contexts_of_def)
    qed
  qed
  have g1: "distinct (map ctx_fut (?cs @ [?c]))"
    using old by auto
  have g2: "sorted_wrt (<) (map ctx_cur_stage (?cs @ [?c]))"
    using old assms(2) by (auto simp: sorted_wrt_append)
  have g3: "\<forall>c \<in> set (?cs @ [?c]). ctx_fut c < next_fut st'"
    using old assms(4) by auto
  have 1: "distinct (map fst (running_wi_contexts st'))"
    using d by (simp add: assms(3) distinct_update)
  have 2: "\<forall>w l. map_of (running_wi_contexts st') w = Some l \<longrightarrow>
         distinct (map ctx_fut l) \<and> sorted_wrt (<) (map ctx_cur_stage l) \<and>
         (\<forall>c \<in> set l. ctx_fut c < next_fut st')"
  proof (intro allI impI)
    fix w l assume h: "map_of (running_wi_contexts st') w = Some l"
    show "distinct (map ctx_fut l) \<and> sorted_wrt (<) (map ctx_cur_stage l) \<and>
         (\<forall>c \<in> set l. ctx_fut c < next_fut st')"
    proof (cases "w = wi")
      case True
      with h m have "l = ?cs @ [?c]" by simp
      with g1 g2 g3 show ?thesis by blast
    next
      case False
      with h m have "map_of ?R w = Some l" by simp
      from e [OF this] assms(4) show ?thesis by fastforce
    qed
  qed
  have 3: "\<forall>w w' l l'. w \<noteq> w' \<and> map_of (running_wi_contexts st') w = Some l \<and>
         map_of (running_wi_contexts st') w' = Some l' \<longrightarrow>
         ctx_fut ` set l \<inter> ctx_fut ` set l' = {}"
  proof (intro allI impI)
    fix w w' l l'
    assume h: "w \<noteq> w' \<and> map_of (running_wi_contexts st') w = Some l \<and>
         map_of (running_wi_contexts st') w' = Some l'"
    have new: "\<And>v lv. v \<noteq> wi \<Longrightarrow> map_of ?R v = Some lv \<Longrightarrow>
                 ctx_fut ` set lv \<inter> ctx_fut ` set (?cs @ [?c]) = {}"
    proof -
      fix v lv assume v: "v \<noteq> wi" "map_of ?R v = Some lv"
      from e [OF v(2)] have "next_fut st \<notin> ctx_fut ` set lv" by auto
      with other [OF v] show "ctx_fut ` set lv \<inter> ctx_fut ` set (?cs @ [?c]) = {}" by auto
    qed
    show "ctx_fut ` set l \<inter> ctx_fut ` set l' = {}"
    proof (cases "w = wi")
      case True
      with h m have a: "l = ?cs @ [?c]" "map_of ?R w' = Some l'" "w' \<noteq> wi" by auto
      from new [OF a(3,2)] a(1) show ?thesis by blast
    next
      case False
      show ?thesis
      proof (cases "w' = wi")
        case True
        with h m False have a: "l' = ?cs @ [?c]" "map_of ?R w = Some l" by auto
        from new [OF False a(2)] a(1) show ?thesis by blast
      next
        case w': False
        with h m False have "map_of ?R w = Some l" "map_of ?R w' = Some l'" by auto
        with x h show ?thesis by blast
      qed
    qed
  qed
  from 1 2 3 show ?thesis unfolding ctx_inv_def by blast
qed

lemma grow_tracked:
  assumes "running_wi_contexts st' =
           AList.update wi (contexts_of st wi @ [c]) (running_wi_contexts st)"
  shows "tracked st g \<Longrightarrow> tracked st' g" and "tracked st' (ctx_fut c)"
proof -
  have m: "map_of (running_wi_contexts st') = (map_of (running_wi_contexts st))(wi \<mapsto> contexts_of st wi @ [c])"
    by (simp add: assms grow_map_of)
  show "tracked st' (ctx_fut c)"
    unfolding tracked_def using m by (intro exI [of _ wi]) auto
  assume "tracked st g"
  then obtain w l where w: "map_of (running_wi_contexts st) w = Some l" "g \<in> ctx_fut ` set l"
    unfolding tracked_def by blast
  show "tracked st' g"
  proof (cases "w = wi")
    case True
    with w have "contexts_of st wi = l" by (simp add: contexts_of_def)
    with w(2) m show ?thesis
      unfolding tracked_def by (intro exI [of _ wi]) auto
  next
    case False
    with w m show ?thesis unfolding tracked_def by (intro exI [of _ w]) auto
  qed
qed

lemma submit_to_stage_inv:
  assumes "tables_inv st"
    and "\<forall>c \<in> set (contexts_of st wi). ctx_cur_stage c < cur_stage (heap st wi)"
    and "submit_to_stage s wi pc b st = (r, st')"
  shows "tables_inv st'"
proof -
  note sh = submit_to_stage_shape [OF assms(3)]
  from sh have fr: "fut_to_pipe_conn st' = fut_to_pipe_conn st"
    "conn_close_calls st' = conn_close_calls st" "next_conn st' = next_conn st"
    "input_queue_fut st' = input_queue_fut st" "next_fut st \<le> next_fut st'"
    by simp_all
  show ?thesis
  proof (cases "\<exists>f. r = Returns f")
    case False
    with sh have same: "running_wi_contexts st' = running_wi_contexts st"
      by (cases r) auto
    have "ctx_inv st'" using assms(1) same fr by (auto simp: tables_inv_def intro: ctx_inv_frame)
    moreover have "conn_inv st'"
      using assms(1) fr same
      by (intro conn_inv_mono [of st st']) (simp_all add: tables_inv_def tracked_def)
    ultimately show ?thesis by (simp add: tables_inv_def)
  next
    case True
    then obtain f where r: "r = Returns f" by blast
    with sh have g: "next_fut st' = Suc (next_fut st)"
      "running_wi_contexts st' =
                AList.update wi
                  (contexts_of st wi @
                     [\<lparr>ctx_cur_stage = cur_stage (heap st wi), ctx_fut = next_fut st,
                       ctx_wi = wi\<rparr>])
                  (running_wi_contexts st)"
      by simp_all
    have "ctx_inv st'"
      using assms(1,2) g by (intro grow_ctx_inv [of st wi _ st']) (auto simp: tables_inv_def)
    moreover have "conn_inv st'"
      using assms(1) fr grow_tracked(1) [OF g(2)]
      by (intro conn_inv_mono [of st st']) (simp_all add: tables_inv_def)
    ultimately show ?thesis by (simp add: tables_inv_def)
  qed
qed

lemma quiet_contexts_of: "quiet st st' \<Longrightarrow> contexts_of st' wi = contexts_of st wi"
  by (simp add: quiet_def contexts_of_def)

lemma try_submit_to_stage_inv:
  assumes "tables_inv st" and "contexts_of st wi = []"
    and "try_submit_to_stage wi st = (r, st')"
  shows "tables_inv st'"
proof -
  obtain r0 st0 where a: "is_stage_for_work_item wi None st = (r0, st0)"
    by (cases "is_stage_for_work_item wi None st")
  note q0 = is_stage_for_work_item_quiet [OF a]
  have i0: "tables_inv st0" using assms(1) q0 by (rule tables_inv_quiet)
  have c0: "contexts_of st0 wi = []" using assms(2) quiet_contexts_of [OF q0] by simp
  show ?thesis
  proof (cases "r0 = Returns True")
    case False
    with assms(3) a have "st' = st0 \<or> st' = past_last_stage_if_failed wi st0"
      by (auto simp: try_submit_to_stage_def and_then_def split: outcome.splits if_splits)
    with i0 show ?thesis
      using tables_inv_quiet past_last_stage_if_failed_quiet by blast
  next
    case True
    show ?thesis
    proof (cases "stages_at st0 (cur_stage (heap st0 wi))")
      case (Inl e)
      with assms(3) a True have "st' = st0"
        by (simp add: try_submit_to_stage_def and_then_def)
      with i0 show ?thesis by simp
    next
      case (Inr s)
      obtain r1 st1 where b: "submit_to_stage s wi None False st0 = (r1, st1)"
        by (cases "submit_to_stage s wi None False st0")
      have i1: "tables_inv st1"
        using i0 _ b by (rule submit_to_stage_inv) (simp add: c0)
      from assms(3) a True Inr b have "st' = st1 \<or> (\<exists>h. st' = st1\<lparr>heap := h\<rparr>)"
        by (auto simp: try_submit_to_stage_def and_then_def split: outcome.splits)
      with i1 show ?thesis by (auto simp: tables_inv_heap_update)
    qed
  qed
qed

lemma tracked_frame:
  "running_wi_contexts st' = running_wi_contexts st \<Longrightarrow> tracked st' g = tracked st g"
  by (simp add: tracked_def)

lemma add_pipe_conn_inv:
  assumes "conn_inv s0"
    and table: "fut_to_pipe_conn s = fut_to_pipe_conn s0"
    and calls: "conn_close_calls s = conn_close_calls s0"
    and inp: "input_queue_fut s = input_queue_fut s0"
    and nc: "next_conn s = next_conn s0 + 2"
    and nf: "next_fut s0 \<le> fw" "fw < fr" "fr < next_fut s"
    and tr: "\<And>g. tracked s0 g \<Longrightarrow> tracked s g" "tracked s fw" "tracked s fr"
  shows "conn_inv (s\<lparr>heap := h,
                     fut_to_pipe_conn := (fut_to_pipe_conn s)
                       (fw \<mapsto> Suc (next_conn s0), fr \<mapsto> next_conn s0)\<rparr>)"
proof -
  let ?s = "s\<lparr>heap := h,
                     fut_to_pipe_conn := (fut_to_pipe_conn s)
                       (fw \<mapsto> Suc (next_conn s0), fr \<mapsto> next_conn s0)\<rparr>"
  from assms(1) have
    a: "\<And>g c. fut_to_pipe_conn s0 g = Some c \<Longrightarrow>
          c < next_conn s0 \<and> conn_close_calls s0 c = 0 \<and> g < next_fut s0 \<and> tracked s0 g"
    and i: "inj_on (fut_to_pipe_conn s0) (dom (fut_to_pipe_conn s0))"
    and le: "\<And>c. conn_close_calls s0 c \<le> 1"
    and fresh: "\<And>c. next_conn s0 \<le> c \<Longrightarrow> conn_close_calls s0 c = 0"
    and inq: "\<And>g. input_queue_fut s0 = Some g \<Longrightarrow> fut_to_pipe_conn s0 g = None \<and> g < next_fut s0"
    unfolding conn_inv_def by blast+
  have trs: "\<And>g. tracked ?s g = tracked s g" by (simp add: tracked_def)
  have 1: "\<forall>g c. fut_to_pipe_conn ?s g = Some c \<longrightarrow>
         c < next_conn ?s \<and> conn_close_calls ?s c = 0 \<and> g < next_fut ?s \<and> tracked ?s g"
  proof (intro allI impI)
    fix g c assume h: "fut_to_pipe_conn ?s g = Some c"
    consider (w) "g = fw" "g \<noteq> fr" "c = Suc (next_conn s0)"
      | (r) "g = fr" "c = next_conn s0"
      | (old) "g \<noteq> fw" "g \<noteq> fr" "fut_to_pipe_conn s0 g = Some c"
      using h by (auto simp: table split: if_splits)
    then show "c < next_conn ?s \<and> conn_close_calls ?s c = 0 \<and> g < next_fut ?s \<and> tracked ?s g"
    proof cases
      case w
      then show ?thesis using nc nf tr fresh [of "Suc (next_conn s0)"]
        by (simp add: calls trs)
    next
      case r
      then show ?thesis using nc nf tr fresh [of "next_conn s0"]
        by (simp add: calls trs)
    next
      case old
      from a [OF old(3)] nc nf tr show ?thesis by (simp add: calls trs)
    qed
  qed
  have 2: "inj_on (fut_to_pipe_conn ?s) (dom (fut_to_pipe_conn ?s))"
  proof (rule inj_onI)
    fix x y
    assume x: "x \<in> dom (fut_to_pipe_conn ?s)" and y: "y \<in> dom (fut_to_pipe_conn ?s)"
      and e: "fut_to_pipe_conn ?s x = fut_to_pipe_conn ?s y"
    have val: "\<And>g c. fut_to_pipe_conn ?s g = Some c \<Longrightarrow>
             (g = fr \<and> c = next_conn s0) \<or> (g = fw \<and> c = Suc (next_conn s0)) \<or>
             (g \<noteq> fr \<and> g \<noteq> fw \<and> fut_to_pipe_conn s0 g = Some c \<and> c < next_conn s0)"
      using a nf by (auto simp: table split: if_splits)
    from x have "fut_to_pipe_conn ?s x \<noteq> None" by (simp only: domIff not_False_eq_True)
    then obtain c where cx: "fut_to_pipe_conn ?s x = Some c" by blast
    with e have cy: "fut_to_pipe_conn ?s y = Some c" by simp
    from val [OF cx] val [OF cy] i show "x = y"
      by (auto simp: inj_on_def dom_def)
  qed
  have 3: "\<forall>c. conn_close_calls ?s c \<le> 1"
    using le by (simp add: calls)
  have 4: "\<forall>c. next_conn ?s \<le> c \<longrightarrow> conn_close_calls ?s c = 0"
    using fresh nc by (simp add: calls)
  have 5: "\<forall>g. input_queue_fut ?s = Some g \<longrightarrow> fut_to_pipe_conn ?s g = None \<and> g < next_fut ?s"
    using inq nf by (fastforce simp: inp table)
  from 1 2 3 4 5 show ?thesis unfolding conn_inv_def by blast
qed

lemma try_submit_to_dual_stage_with_pipe_inv:
  assumes "tables_inv st" and "contexts_of st wi = []"
    and "try_submit_to_dual_stage_with_pipe wi st = (r, st')"
  shows "tables_inv st'"
proof (cases "cur_stage (heap st wi) = num_stages st - 1")
  case True
  with assms(3) have "st' = st" by (simp add: try_submit_to_dual_stage_with_pipe_def)
  with assms(1) show ?thesis by simp
next
  case nl: False
  obtain ra sa where a: "is_stage_for_work_item wi (Some (cur_stage (heap st wi))) st = (ra, sa)"
    by (cases "is_stage_for_work_item wi (Some (cur_stage (heap st wi))) st")
  note qa = is_stage_for_work_item_quiet [OF a]
  have ia: "tables_inv sa" using assms(1) qa by (rule tables_inv_quiet)
  have ca: "contexts_of sa wi = []" using assms(2) quiet_contexts_of [OF qa] by simp
  show ?thesis
  proof (cases "ra = Returns True")
    case False
    with assms(3) nl a have "st' = sa \<or> st' = past_last_stage_if_failed wi sa"
      by (auto simp: try_submit_to_dual_stage_with_pipe_def and_then_def
          split: outcome.splits if_splits)
    with ia show ?thesis
      using tables_inv_quiet past_last_stage_if_failed_quiet by blast
  next
    case ta: True
    obtain rb sb where b: "is_stage_for_work_item wi (Some (cur_stage (heap sa wi) + 1)) sa = (rb, sb)"
      by (cases "is_stage_for_work_item wi (Some (cur_stage (heap sa wi) + 1)) sa")
    note qb = is_stage_for_work_item_quiet [OF b]
    have ib: "tables_inv sb" using ia qb by (rule tables_inv_quiet)
    have cb: "contexts_of sb wi = []" using ca quiet_contexts_of [OF qb] by simp
    show ?thesis
    proof (cases "rb = Returns True")
      case False
      with assms(3) nl a ta b have "st' = sb \<or> st' = past_last_stage_if_failed wi sb"
        by (auto simp: try_submit_to_dual_stage_with_pipe_def and_then_def
            split: outcome.splits if_splits)
      with ib show ?thesis
        using tables_inv_quiet past_last_stage_if_failed_quiet by blast
    next
      case tb: True
      define s3 where "s3 = sb\<lparr>next_conn := next_conn sb + 2\<rparr>"
      have i3: "tables_inv s3"
      proof -
        have "ctx_inv s3" using ib by (simp add: tables_inv_def ctx_inv_def s3_def)
        moreover have "conn_inv s3"
          using ib by (intro conn_inv_mono [of sb s3]) (simp_all add: tables_inv_def s3_def tracked_def)
        ultimately show ?thesis by (simp add: tables_inv_def)
      qed
      have c3: "contexts_of s3 wi = []" using cb by (simp add: contexts_of_def s3_def)
      show ?thesis
      proof (cases "stages_at s3 (cur_stage (heap s3 wi))")
        case (Inl e)
        with assms(3) nl a ta b tb have "st' = s3"
          by (simp add: try_submit_to_dual_stage_with_pipe_def and_then_def Let_def s3_def)
        with i3 show ?thesis by simp
      next
        case ns: (Inr ns)
        obtain r4 s4 where w: "submit_to_stage ns wi (Some (Suc (next_conn sb))) False s3 = (r4, s4)"
          by (cases "submit_to_stage ns wi (Some (Suc (next_conn sb))) False s3")
        have i4: "tables_inv s4" using i3 _ w by (rule submit_to_stage_inv) (simp add: c3)
        note sh4 = submit_to_stage_shape [OF w]
        show ?thesis
        proof (cases "\<exists>f. r4 = Returns f")
          case False
          with assms(3) nl a ta b tb ns w have "st' = s4"
            by (cases r4)
               (auto simp: try_submit_to_dual_stage_with_pipe_def and_then_def Let_def s3_def)
          with i4 show ?thesis by simp
        next
          case True
          then obtain fw where r4: "r4 = Returns fw" by blast
          with sh4 have fw: "fw = next_fut s3" "next_fut s4 = Suc (next_fut s3)"
            and run4: "running_wi_contexts s4 =
                AList.update wi
                  (contexts_of s3 wi @
                     [\<lparr>ctx_cur_stage = cur_stage (heap s3 wi), ctx_fut = next_fut s3,
                       ctx_wi = wi\<rparr>])
                  (running_wi_contexts s3)"
            and h4: "heap s4 = heap s3"
            by simp_all
          define s5 where "s5 = s4\<lparr>heap := (heap s4)(wi := increment_stage (heap s4 wi))\<rparr>"
          have i5: "tables_inv s5" using i4 by (simp add: s5_def tables_inv_heap_update)
          have c5: "contexts_of s5 wi =
                      [\<lparr>ctx_cur_stage = cur_stage (heap s3 wi), ctx_fut = next_fut s3, ctx_wi = wi\<rparr>]"
          proof -
            have "map_of (running_wi_contexts s5) wi =
                    Some (contexts_of s3 wi @
                     [\<lparr>ctx_cur_stage = cur_stage (heap s3 wi), ctx_fut = next_fut s3,
                       ctx_wi = wi\<rparr>])"
              by (simp add: s5_def run4 grow_map_of)
            then show ?thesis by (simp add: contexts_of_def [of s5] c3)
          qed
          have k5: "cur_stage (heap s5 wi) = cur_stage (heap s3 wi) + 1"
            by (simp add: s5_def h4 increment_stage_def)
          show ?thesis
          proof (cases "stages_at s5 (cur_stage (heap s5 wi))")
            case (Inl e)
            with assms(3) nl a ta b tb ns w r4 have "st' = s5"
              by (simp add: try_submit_to_dual_stage_with_pipe_def and_then_def Let_def
                  s3_def s5_def)
            with i5 show ?thesis by simp
          next
            case rs: (Inr rs)
            obtain r6 s6 where rd: "submit_to_stage rs wi (Some (next_conn sb)) True s5 = (r6, s6)"
              by (cases "submit_to_stage rs wi (Some (next_conn sb)) True s5")
            have i6: "tables_inv s6"
              using i5 _ rd by (rule submit_to_stage_inv) (simp add: c5 k5)
            note sh6 = submit_to_stage_shape [OF rd]
            show ?thesis
            proof (cases "\<exists>f. r6 = Returns f")
              case False
              with assms(3) nl a ta b tb ns w r4 rs rd have "st' = s6"
                by (cases r6)
                   (auto simp: try_submit_to_dual_stage_with_pipe_def and_then_def Let_def
                    s3_def s5_def)
              with i6 show ?thesis by simp
            next
              case True
              then obtain fr where r6: "r6 = Returns fr" by blast
              with sh6 have fr: "fr = next_fut s5" "next_fut s6 = Suc (next_fut s5)"
                and run6: "running_wi_contexts s6 =
                  AList.update wi
                    (contexts_of s5 wi @
                       [\<lparr>ctx_cur_stage = cur_stage (heap s5 wi), ctx_fut = next_fut s5,
                         ctx_wi = wi\<rparr>])
                    (running_wi_contexts s5)"
                by simp_all
              from assms(3) nl a ta b tb ns w r4 rs rd r6 have st': 
                "st' = s6\<lparr>heap := (heap s6)(wi := increment_stage (heap s6 wi)),
                          fut_to_pipe_conn := (fut_to_pipe_conn s6)
                             (fw \<mapsto> Suc (next_conn sb), fr \<mapsto> next_conn sb)\<rparr>"
                by (simp add: try_submit_to_dual_stage_with_pipe_def and_then_def Let_def
                    s3_def s5_def)
              have "ctx_inv st'"
                using i6 by (simp add: st' tables_inv_def ctx_inv_def)
              moreover have "conn_inv st'"
                unfolding st'
              proof (rule add_pipe_conn_inv)
                show "conn_inv sb" using ib by (simp add: tables_inv_def)
                show "fut_to_pipe_conn s6 = fut_to_pipe_conn sb"
                  using sh6 sh4 by (simp add: s5_def s3_def)
                show "conn_close_calls s6 = conn_close_calls sb"
                  using sh6 sh4 by (simp add: s5_def s3_def)
                show "input_queue_fut s6 = input_queue_fut sb"
                  using sh6 sh4 by (simp add: s5_def s3_def)
                show "next_conn s6 = next_conn sb + 2"
                  using sh6 sh4 by (simp add: s5_def s3_def)
                show "next_fut sb \<le> fw" using fw by (simp add: s3_def)
                show "fw < fr" using fw fr by (simp add: s5_def)
                show "fr < next_fut s6" using fr by simp
                have t5: "\<And>g. tracked s5 g = tracked s4 g"
                  by (simp add: tracked_def s5_def)
                have t3: "\<And>g. tracked s3 g = tracked sb g"
                  by (simp add: tracked_def s3_def)
                show "\<And>g. tracked sb g \<Longrightarrow> tracked s6 g"
                  using grow_tracked(1) [OF run6] grow_tracked(1) [OF run4] t5 t3 by blast
                have "tracked s4 fw"
                  using grow_tracked(2) [OF run4] fw by simp
                then show "tracked s6 fw"
                  using grow_tracked(1) [OF run6] t5 by blast
                show "tracked s6 fr"
                  using grow_tracked(2) [OF run6] fr by simp
              qed
              ultimately show ?thesis by (simp add: tables_inv_def)
            qed
          qed
        qed
      qed
    qed
  qed
qed

lemma contexts_of_heap_update: "contexts_of (st\<lparr>heap := h\<rparr>) wi = contexts_of st wi"
  by (simp add: contexts_of_def)

lemma stages_loop_inv_aux:
  "nat (num_stages st - cur_stage (heap st wi)) = n \<Longrightarrow>
   tables_inv st \<Longrightarrow> contexts_of st wi = [] \<Longrightarrow> stages_loop wi st = (r, st') \<Longrightarrow> tables_inv st'"
proof (induction n arbitrary: st rule: less_induct)
  case (less n)
  note prems1 = less.prems(2,3,4)
  show ?case
  proof (cases "cur_stage (heap st wi) < num_stages st")
    case False
    with prems1(3) have "st' = st"
      by (subst (asm) stages_loop.simps) simp
    with prems1(1) show ?thesis by simp
  next
    case True
    show ?thesis
    proof (cases "stages_at st (cur_stage (heap st wi))")
      case (Inl e)
      with True prems1(3) have "st' = st"
        by (subst (asm) stages_loop.simps) simp
      with prems1(1) show ?thesis by simp
    next
      case (Inr next_stage)
      let ?attempt = "if is_pipe_with_next_stage next_stage
                  then try_submit_to_dual_stage_with_pipe wi st
                  else try_submit_to_stage wi st"
      obtain r1 st1 where t: "?attempt = (r1, st1)" by (cases ?attempt)
      have i1: "tables_inv st1"
      proof (cases "is_pipe_with_next_stage next_stage")
        case True
        with t have "try_submit_to_dual_stage_with_pipe wi st = (r1, st1)" by simp
        with prems1(1,2) show ?thesis by (rule try_submit_to_dual_stage_with_pipe_inv)
      next
        case False
        with t have "try_submit_to_stage wi st = (r1, st1)" by simp
        with prems1(1,2) show ?thesis by (rule try_submit_to_stage_inv)
      qed
      show ?thesis
      proof (cases "r1 = Returns False \<and> \<not> is_failed (heap st1 wi)")
        case False
        with True Inr t prems1(3) have "st' = st1"
          by (subst (asm) stages_loop.simps) (auto split: outcome.splits if_splits)
        with i1 show ?thesis by simp
      next
        case go: True
        let ?next = "st1\<lparr>heap := (heap st1)(wi := increment_stage (heap st1 wi))\<rparr>"
        have same: "st1 = st"
        proof (cases "is_pipe_with_next_stage next_stage")
          case True
          with t go have "try_submit_to_dual_stage_with_pipe wi st = (Returns False, st1)" by simp
          with go show ?thesis by (intro try_submit_to_dual_stage_with_pipe_declined) auto
        next
          case False
          with t go have "try_submit_to_stage wi st = (Returns False, st1)" by simp
          with go show ?thesis by (intro try_submit_to_stage_declined) auto
        qed
        have rec: "stages_loop wi ?next = (r, st')"
          using True Inr t go prems1(3)
          by (subst (asm) stages_loop.simps) simp
        have "tables_inv ?next" using i1 by (simp add: tables_inv_heap_update)
        moreover have "contexts_of ?next wi = []"
          using prems1(2) same by (simp add: contexts_of_heap_update)
        moreover have "nat (num_stages ?next - cur_stage (heap ?next wi)) < n"
          using True less.prems(1) same by (simp add: increment_stage_def num_stages_def)
        ultimately show ?thesis
          using less.IH [OF _ refl, of ?next] rec by blast
      qed
    qed
  qed
qed

lemma stages_loop_inv:
  "tables_inv st \<Longrightarrow> contexts_of st wi = [] \<Longrightarrow> stages_loop wi st = (r, st') \<Longrightarrow> tables_inv st'"
  using stages_loop_inv_aux [OF refl] by blast

lemma idle_contexts_of: "\<not> is_wi_still_running st wi \<Longrightarrow> contexts_of st wi = []"
  by (auto simp: is_wi_still_running_def contexts_of_def split: option.splits)

lemma handle_stages_for_wi_inv:
  assumes "tables_inv st" and "\<not> is_wi_still_running st wi"
    and "handle_stages_for_wi wi st = (r, st')"
  shows "tables_inv st'"
proof (cases "cur_stage (heap st wi) < 0 \<or> cur_stage (heap st wi) > num_stages st")
  case True
  let ?s = "st\<lparr>heap := (heap st)
                 (wi := (append_exception (heap st wi) InvalidStateError)
                          \<lparr>cur_stage := num_stages st\<rparr>)\<rparr>"
  from True assms(3) have "set_wi_to_finished wi ?s = (r, st')"
    by (simp add: handle_stages_for_wi_def)
  from set_wi_to_finished_quiet [OF this] assms(1) show ?thesis
    using tables_inv_quiet [of ?s st'] by (simp add: tables_inv_heap_update)
next
  case False
  obtain r1 st1 where l: "stages_loop wi st = (r1, st1)" by (cases "stages_loop wi st")
  have i1: "tables_inv st1"
    using assms(1) idle_contexts_of [OF assms(2)] l by (rule stages_loop_inv)
  from False assms(3) l have "st' = st1 \<or> (\<exists>r2. set_wi_to_finished wi st1 = (r2, st'))"
    by (auto simp: handle_stages_for_wi_def and_then_def split: outcome.splits if_splits)
  with i1 show ?thesis
    using set_wi_to_finished_quiet tables_inv_quiet by blast
qed

lemma check_completed_inv:
  "tables_inv st \<Longrightarrow> check_completed ws st = (r, st') \<Longrightarrow> tables_inv st'"
proof (induction ws arbitrary: st)
  case Nil
  then show ?case by simp
next
  case (Cons wi ws)
  show ?case
  proof (cases "is_wi_still_running st wi")
    case True
    with Cons show ?thesis by simp
  next
    case False
    let ?act = "if is_failed (heap st wi) then set_wi_to_finished wi st
                else handle_stages_for_wi wi st"
    obtain r1 st1 where a: "?act = (r1, st1)" by (cases ?act)
    have i1: "tables_inv st1"
    proof (cases "is_failed (heap st wi)")
      case True
      with a have "set_wi_to_finished wi st = (r1, st1)" by simp
      from set_wi_to_finished_quiet [OF this] Cons.prems(1) show ?thesis
        by (rule tables_inv_quiet [rotated])
    next
      case nf: False
      with a have "handle_stages_for_wi wi st = (r1, st1)" by simp
      with Cons.prems(1) False show ?thesis by (rule handle_stages_for_wi_inv)
    qed
    from Cons.prems(2) False a have "st' = st1 \<or> check_completed ws st1 = (r, st')"
      by (auto split: outcome.splits)
    with i1 Cons.IH show ?thesis by blast
  qed
qed

lemma pl_worker_process_inv:
  assumes "tables_inv st" and "\<forall>f \<in> set fs. fut_to_pipe_conn st f = None"
    and "pl_worker_process fs st = (r, st')"
  shows "tables_inv st'"
proof -
  obtain r1 st1 where h: "handle_done_futs fs [] False st = (r1, st1)"
    by (cases "handle_done_futs fs [] False st")
  have i1: "tables_inv st1" using assms(1,2) h by (rule handle_done_futs_inv)
  from assms(3) h have "st' = st1 \<or> (\<exists>ws r2. check_completed ws st1 = (r2, st'))"
    by (auto simp: pl_worker_process_def and_then_def split: outcome.splits prod.splits if_splits)
  with i1 show ?thesis using check_completed_inv by blast
qed

lemma get_all_wi_futs_inv:
  assumes "tables_inv st" and "get_all_wi_futs st = ((d, p), st')"
  shows "tables_inv st'" and "\<forall>f \<in> set d. fut_to_pipe_conn st' f = None"
    and "input_queue_fut st' = input_queue_fut st"
    and "futs st' = futs st"
proof -
  let ?cs = "map snd (running_wi_contexts st)"
  let ?cl = "filter (fut_done st) (concat (map (map ctx_fut) ?cs))"
  from assms(2) have st': "st' = fold cleanup_pipe_connections ?cl st"
    and d: "d = concat (map (\<lambda>l. if \<forall>c \<in> set l. fut_done st (ctx_fut c)
                            then map ctx_fut l else []) ?cs)"
    by (simp_all add: get_all_wi_futs_def scan_contexts_spec)
  show "tables_inv st'"
    using assms(1) by (simp add: st' tables_inv_def fold_cleanup_conn_inv fold_cleanup_ctx_inv)
  have "set d \<subseteq> set ?cl"
    unfolding d by (auto split: if_splits)
  then show "\<forall>f \<in> set d. fut_to_pipe_conn st' f = None"
    by (auto simp: st' fold_cleanup_table)
  show "input_queue_fut st' = input_queue_fut st"
    by (simp add: st' fold_cleanup_frame)
  show "futs st' = futs st"
    by (simp add: st' fold_cleanup_frame)
qed

lemma renew_input_queue_future_inv:
  assumes "tables_inv st" and "renew_input_queue_future st = (r, st')"
  shows "tables_inv st'" and "fut_to_pipe_conn st' = fut_to_pipe_conn st"
proof -
  from assms(2) have fr: "running_wi_contexts st' = running_wi_contexts st"
    "fut_to_pipe_conn st' = fut_to_pipe_conn st"
    "conn_close_calls st' = conn_close_calls st" "next_conn st' = next_conn st"
    "next_fut st' = Suc (next_fut st)" "input_queue_fut st' = Some (next_fut st)"
    by (auto simp: renew_input_queue_future_def and_then_def new_Future_def set_result_def
        Let_def split: if_splits)
  show "fut_to_pipe_conn st' = fut_to_pipe_conn st" by (rule fr)
  have "ctx_inv st'"
    using assms(1) fr by (intro ctx_inv_frame [of st st']) (simp_all add: tables_inv_def)
  moreover have "conn_inv st'"
  proof -
    from assms(1) have c: "conn_inv st" by (simp add: tables_inv_def)
    then have a: "\<And>g c. fut_to_pipe_conn st g = Some c \<Longrightarrow>
          c < next_conn st \<and> conn_close_calls st c = 0 \<and> g < next_fut st \<and> tracked st g"
      unfolding conn_inv_def by blast
    have "fut_to_pipe_conn st (next_fut st) = None"
    proof (cases "fut_to_pipe_conn st (next_fut st)")
      case (Some c)
      from a [OF this] show ?thesis by simp
    qed simp
    with c show ?thesis
      unfolding conn_inv_def by (simp add: fr tracked_def) (metis less_Suc_eq)
  qed
  ultimately show "tables_inv st'" by (simp add: tables_inv_def)
qed

lemma with_input_queue_fut_clear:
  assumes "tables_inv st" and "\<forall>f \<in> set d. fut_to_pipe_conn st f = None"
  shows "\<forall>f \<in> set (with_input_queue_fut st d). fut_to_pipe_conn st f = None"
  using assms
  by (auto simp: with_input_queue_fut_def tables_inv_def conn_inv_def split: option.splits)

lemma pl_worker_iteration_inv:
  assumes "tables_inv st" and "pl_worker_iteration st = (r, st')"
  shows "tables_inv st'"
proof -
  obtain d p st1 where g: "get_all_wi_futs st = ((d, p), st1)"
    by (cases "get_all_wi_futs st") auto
  note g1 = get_all_wi_futs_inv [OF assms(1) g]
  obtain r2 st2 where n: "renew_input_queue_future st1 = (r2, st2)"
    by (cases "renew_input_queue_future st1")
  note n2 = renew_input_queue_future_inv [OF g1(1) n]
  have clear: "\<forall>f \<in> set (with_input_queue_fut st2 d). fut_to_pipe_conn st2 f = None"
    using n2 g1(2) by (intro with_input_queue_fut_clear) simp_all
  from assms(2) g n have
    "st' = st2 \<or> pl_worker_process (with_input_queue_fut st2 d) st2 = (r, st')"
    by (auto simp: pl_worker_iteration_def and_then_def Let_def split: outcome.splits if_splits)
  with n2(1) clear show ?thesis using pl_worker_process_inv by blast
qed

lemma pl_worker_after_wait_inv:
  assumes "tables_inv st" and "pl_worker_after_wait st = (r, st')"
  shows "tables_inv st'"
proof -
  obtain d p st1 where g: "get_all_wi_futs st = ((d, p), st1)"
    by (cases "get_all_wi_futs st") auto
  note g1 = get_all_wi_futs_inv [OF assms(1) g]
  have clear: "\<forall>f \<in> set (with_input_queue_fut st1 d). fut_to_pipe_conn st1 f = None"
    using g1 by (intro with_input_queue_fut_clear) simp_all
  from assms(2) g have
    "st' = st1 \<or> pl_worker_process (with_input_queue_fut st1 d) st1 = (r, st')"
    by (auto simp: pl_worker_after_wait_def Let_def split: if_splits)
  with g1(1) clear show ?thesis using pl_worker_process_inv by blast
qed

lemma pl_worker_guard_inv:
  assumes "tables_inv st" and "pl_worker_guard (r, st) = (r', st')"
  shows "tables_inv st'"
proof -
  have q: "quiet st st'"
  proof (cases r)
    case (Returns x)
    with assms(2) show ?thesis
      by (cases x)
         (auto simp: pl_worker_guard_def worker_future_done_def quiet_def split: option.splits)
  next
    case (Raises ex)
    obtain r1 st1 where f: "fail_all_pending ex st = (r1, st1)"
      by (cases "fail_all_pending ex st")
    then have q1: "quiet st st1"
      using fail_all_loop_quiet by (simp add: fail_all_pending_def)
    from assms(2) Raises f have "\<exists>x. st' = worker_future_done x st1"
      by (cases r1) (auto simp: pl_worker_guard_def)
    with q1 show ?thesis
      using worker_future_done_quiet quiet_trans by blast
  next
    case Blocks
    with assms(2) show ?thesis by (simp add: pl_worker_guard_def quiet_refl)
  qed
  with assms(1) show ?thesis by (rule tables_inv_quiet)
qed

lemma pl_worker_step_inv: "tables_inv st \<Longrightarrow> tables_inv (snd (pl_worker_step st))"
  unfolding pl_worker_step_def
  by (metis pl_worker_guard_inv pl_worker_iteration_inv prod.collapse)

lemma pl_worker_resume_inv: "tables_inv st \<Longrightarrow> tables_inv (snd (pl_worker_resume st))"
  unfolding pl_worker_resume_def
  by (metis pl_worker_guard_inv pl_worker_after_wait_inv prod.collapse)

lemma tables_inv_new: "tables_inv (new_MultiprocessingPipeline sts h)"
  by (simp add: tables_inv_def ctx_inv_def conn_inv_def new_MultiprocessingPipeline_def)

lemma shutdown_quiet: "shutdown st = (r, st') \<Longrightarrow> quiet st st'"
proof -
  assume a: "shutdown st = (r, st')"
  show ?thesis
  proof (cases "pl_worker_future st = None")
    case True
    with a show ?thesis by (simp add: shutdown_def quiet_refl)
  next
    case False
    obtain r1 st1 where b: "shutdown_begin st = (r1, st1)" by (cases "shutdown_begin st")
    note q1 = shutdown_begin_quiet [OF b]
    from a False b have "st' = st1 \<or> shutdown_join st1 = (r, st')"
      by (auto simp: shutdown_def and_then_def split: outcome.splits)
    with q1 show ?thesis using shutdown_join_quiet quiet_trans by blast
  qed
qed

lemma reachable_inv: "reachable st \<Longrightarrow> tables_inv st"
proof (induction rule: reachable.induct)
  case (created sts h)
  show ?case by (rule tables_inv_new)
next
  case (stage_added st s)
  have "quiet st (add_stage s st)" by (simp add: quiet_def add_stage_def)
  with stage_added.IH show ?case by (rule tables_inv_quiet)
next
  case (submitted st w)
  then show ?case by (metis tables_inv_quiet submit_quiet prod.collapse)
next
  case (controller_step st)
  from controller_step.IH show ?case by (rule pl_worker_step_inv)
next
  case (controller_resume st)
  from controller_resume.IH show ?case by (rule pl_worker_resume_inv)
next
  case (future_settled st f r)
  have "quiet st (st\<lparr>futs := (futs st)(f := r)\<rparr>)" by (simp add: quiet_def)
  with future_settled.IH show ?case by (rule tables_inv_quiet)
next
  case (objects_changed st h)
  then show ?case by (simp add: tables_inv_heap_update)
next
  case (shutdown_called st)
  then show ?case by (metis tables_inv_quiet shutdown_quiet prod.collapse)
next
  case (shutdown_joined st)
  then show ?case by (metis tables_inv_quiet shutdown_join_quiet prod.collapse)
qed

lemma distinct_concat_alist:
  assumes "distinct (map fst al)"
    and "\<And>w l. map_of al w = Some l \<Longrightarrow> distinct (g l)"
    and "\<And>w w' l l'. w \<noteq> w' \<Longrightarrow> map_of al w = Some l \<Longrightarrow> map_of al w' = Some l' \<Longrightarrow>
           set (g l) \<inter> set (g l') = {}"
  shows "distinct (concat (map (\<lambda>q. g (snd q)) al))"
  using assms
proof (induction al)
  case Nil
  then show ?case by simp
next
  case (Cons p al)
  obtain k v where p: "p = (k, v)" by (cases p)
  from Cons.prems(1) p have kn: "k \<notin> fst ` set al" and d: "distinct (map fst al)" by auto
  have look: "\<And>w l. map_of al w = Some l \<Longrightarrow> w \<noteq> k \<and> map_of (p # al) w = Some l"
  proof -
    fix w l assume h: "map_of al w = Some l"
    then have "(w, l) \<in> set al" by (rule map_of_SomeD)
    then have "w \<in> fst ` set al" by force
    with kn have "w \<noteq> k" by blast
    with h p show "w \<noteq> k \<and> map_of (p # al) w = Some l" by simp
  qed
  have hd: "map_of (p # al) k = Some v" by (simp add: p)
  have 1: "distinct (g v)" using Cons.prems(2) [OF hd] .
  have 2: "distinct (concat (map (\<lambda>q. g (snd q)) al))"
  proof (rule Cons.IH [OF d])
    fix w l assume "map_of al w = Some l"
    with look Cons.prems(2) show "distinct (g l)" by blast
  next
    fix w w' l l'
    assume "w \<noteq> w'" "map_of al w = Some l" "map_of al w' = Some l'"
    with look Cons.prems(3) show "set (g l) \<inter> set (g l') = {}" by blast
  qed
  have 3: "set (g v) \<inter> set (concat (map (\<lambda>q. g (snd q)) al)) = {}"
  proof -
    have "\<And>q. q \<in> set al \<Longrightarrow> set (g v) \<inter> set (g (snd q)) = {}"
    proof -
      fix q assume q: "q \<in> set al"
      obtain w l where wl: "q = (w, l)" by (cases q)
      with q d have "map_of al w = Some l" by simp
      with look have "w \<noteq> k" "map_of (p # al) w = Some l" by blast+
      with Cons.prems(3) [of k w v l] hd wl show "set (g v) \<inter> set (g (snd q)) = {}" by simp
    qed
    then show ?thesis by auto
  qed
  from 1 2 3 show ?case by (simp add: p)
qed

lemma ctx_inv_distinct_futs:
  assumes "ctx_inv st"
  shows "distinct (concat (map (\<lambda>q. map ctx_fut (snd q)) (running_wi_contexts st)))"
proof (rule distinct_concat_alist)
  show "distinct (map fst (running_wi_contexts st))"
    using assms by (simp add: ctx_inv_def)
next
  fix w l assume "map_of (running_wi_contexts st) w = Some l"
  with assms show "distinct (map ctx_fut l)" unfolding ctx_inv_def by blast
next
  fix w w' l l'
  assume "w \<noteq> w'" "map_of (running_wi_contexts st) w = Some l"
    "map_of (running_wi_contexts st) w' = Some l'"
  with assms have "ctx_fut ` set l \<inter> ctx_fut ` set l' = {}" unfolding ctx_inv_def by blast
  then show "set (map ctx_fut l) \<inter> set (map ctx_fut l') = {}" by simp
qed

lemma filter_own_block:
  assumes "distinct (concat xss)" and "xs \<in> set xss" and "\<And>ys. set (h ys) \<subseteq> set ys"
  shows "filter (\<lambda>x. x \<in> set xs) (concat (map h xss)) = filter (\<lambda>x. x \<in> set xs) (h xs)"
  using assms(1,2)
proof (induction xss)
  case Nil
  then show ?case by simp
next
  case (Cons ys yss)
  from Cons.prems(1) have d: "distinct (concat yss)"
    and dj: "set ys \<inter> set (concat yss) = {}" by auto
  have sub: "set (concat (map h yss)) \<subseteq> set (concat yss)"
    using assms(3) by auto
  show ?case
  proof (cases "xs = ys")
    case True
    from sub dj have "filter (\<lambda>x. x \<in> set ys) (concat (map h yss)) = []"
      by (auto simp: filter_empty_conv simp del: set_concat)
    with True show ?thesis by simp
  next
    case False
    with Cons.prems(2) have mem: "xs \<in> set yss" by simp
    then have "set xs \<subseteq> set (concat yss)" by auto
    with dj assms(3) [of ys] have "filter (\<lambda>x. x \<in> set xs) (h ys) = []"
      by (auto simp: filter_empty_conv simp del: set_concat)
    with Cons.IH [OF d mem] show ?thesis by simp
  qed
qed

section \<open>Properties of the scan of the outstanding executions\<close>

lemma get_all_wi_futs_lists:
  "fst (get_all_wi_futs st) =
     (concat (map (\<lambda>ys. if \<forall>f \<in> set ys. fut_done st f then ys else [])
                (map (\<lambda>q. map ctx_fut (snd q)) (running_wi_contexts st))),
      concat (map (\<lambda>ys. if \<forall>f \<in> set ys. fut_done st f then []
                         else filter (\<lambda>f. \<not> fut_done st f) ys)
                (map (\<lambda>q. map ctx_fut (snd q)) (running_wi_contexts st))))"
  by (simp add: get_all_wi_futs_def scan_contexts_spec o_def)

lemma get_all_wi_futs_state:
  "snd (get_all_wi_futs st) =
     fold cleanup_pipe_connections
       (filter (fut_done st) (concat (map (\<lambda>q. map ctx_fut (snd q)) (running_wi_contexts st)))) st"
  by (simp add: get_all_wi_futs_def scan_contexts_spec o_def)

lemma fold_cleanup_calls:
  assumes "inj_on (fut_to_pipe_conn st) (dom (fut_to_pipe_conn st))"
  shows "conn_close_calls (fold cleanup_pipe_connections fs st) c =
           conn_close_calls st c +
           (if \<exists>g \<in> set fs. fut_to_pipe_conn st g = Some c then 1 else 0)"
  using assms
proof (induction fs arbitrary: st)
  case Nil
  then show ?case by simp
next
  case (Cons a fs)
  let ?s1 = "cleanup_pipe_connections a st"
  have i1: "inj_on (fut_to_pipe_conn ?s1) (dom (fut_to_pipe_conn ?s1))"
    using Cons.prems by (auto simp: cleanup_table inj_on_def dom_def split: if_splits)
  have t1: "\<And>g. (fut_to_pipe_conn ?s1 g = Some c) = (g \<noteq> a \<and> fut_to_pipe_conn st g = Some c)"
    by (simp add: cleanup_table)
  have uniq: "\<And>g. fut_to_pipe_conn st a = Some c \<Longrightarrow> fut_to_pipe_conn st g = Some c \<Longrightarrow> g = a"
    using Cons.prems by (auto simp: inj_on_def dom_def)
  show ?case
  proof (cases "fut_to_pipe_conn st a = Some c")
    case True
    with uniq have "\<not> (\<exists>g \<in> set fs. fut_to_pipe_conn ?s1 g = Some c)"
      unfolding t1 by blast
    with True Cons.IH [OF i1] show ?thesis by (simp add: cleanup_calls)
  next
    case False
    then have "(\<exists>g \<in> set fs. fut_to_pipe_conn ?s1 g = Some c)
                 = (\<exists>g \<in> set (a # fs). fut_to_pipe_conn st g = Some c)"
      unfolding t1 by (simp only: set_simps) (metis insert_iff)
    with False Cons.IH [OF i1] show ?thesis by (simp add: cleanup_calls)
  qed
qed

lemma s4_writer_done_reachable: "reachable s4_writer_done"
proof -
  have "reachable s4_init" unfolding s4_init_def by (rule reachable.created)
  then have "reachable s4_submitted" unfolding s4_submitted_def by (rule reachable.submitted)
  then have "reachable s4_dispatched" unfolding s4_dispatched_def by (rule reachable.controller_step)
  then have w: "reachable s4_waiting" unfolding s4_waiting_def by (rule reachable.controller_step)
  have "futs s4_waiting 3 = Pending" by code_simp
  with w show ?thesis unfolding s4_writer_done_def by (rule reachable.future_settled)
qed

lemma s4_both_done_reachable: "reachable s4_both_done"
proof -
  have "reachable s4_writer_seen"
    unfolding s4_writer_seen_def using s4_writer_done_reachable by (rule reachable.controller_resume)
  moreover have "futs s4_writer_seen 4 = Pending" by code_simp
  ultimately show ?thesis unfolding s4_both_done_def by (rule reachable.future_settled)
qed

text \<open>
  C6.  In every reachable state, the scan \<^verbatim>\<open>_get_all_wi_futs\<close> that opens a controller
  iteration treats each work item with outstanding executions as a whole.  The contexts of
  the item are in strictly increasing stage order.  When every future of the item is done,
  the futures of the item in the settled list are exactly its futures, in that stage order,
  and none of them is in the pending list.  When at least one future of the item is not
  done, none of its futures is in the settled list, also not those that are done, and the
  pending list has exactly its futures that are not done.
\<close>

theorem settled_only_when_all_handles_done:
  assumes "reachable st"
    and "get_all_wi_futs st = ((done_futs, pending_futs), st')"
    and "(wi, wi_contexts) \<in> set (running_wi_contexts st)"
  shows "sorted_wrt (<) (map ctx_cur_stage wi_contexts) \<and>
         (if \<forall>c \<in> set wi_contexts. fut_done st (ctx_fut c)
          then filter (\<lambda>f. f \<in> ctx_fut ` set wi_contexts) done_futs = map ctx_fut wi_contexts \<and>
               (\<forall>c \<in> set wi_contexts. ctx_fut c \<notin> set pending_futs)
          else (\<forall>c \<in> set wi_contexts. ctx_fut c \<notin> set done_futs) \<and>
               filter (\<lambda>f. f \<in> ctx_fut ` set wi_contexts) pending_futs
                 = filter (\<lambda>f. \<not> fut_done st f) (map ctx_fut wi_contexts))"
proof -
  let ?L = "map (\<lambda>q. map ctx_fut (snd q)) (running_wi_contexts st)"
  let ?xs = "map ctx_fut wi_contexts"
  let ?hd = "\<lambda>ys. if \<forall>f \<in> set ys. fut_done st f then ys else []"
  let ?hp = "\<lambda>ys. if \<forall>f \<in> set ys. fut_done st f then []
                   else filter (\<lambda>f. \<not> fut_done st f) ys"
  from assms(1) have ci: "ctx_inv st"
    using reachable_inv by (simp add: tables_inv_def)
  then have dk: "distinct (map fst (running_wi_contexts st))" by (simp add: ctx_inv_def)
  with assms(3) have m: "map_of (running_wi_contexts st) wi = Some wi_contexts" by simp
  with ci have sorted: "sorted_wrt (<) (map ctx_cur_stage wi_contexts)"
    unfolding ctx_inv_def by blast
  have dist: "distinct (concat ?L)" using ci by (rule ctx_inv_distinct_futs)
  have mem: "?xs \<in> set ?L" using assms(3) by force
  from assms(2) get_all_wi_futs_lists [of st]
  have d: "done_futs = concat (map ?hd ?L)" and p: "pending_futs = concat (map ?hp ?L)"
    by simp_all
  have fd: "filter (\<lambda>x. x \<in> set ?xs) done_futs = filter (\<lambda>x. x \<in> set ?xs) (?hd ?xs)"
    unfolding d by (rule filter_own_block [OF dist mem]) auto
  have fp: "filter (\<lambda>x. x \<in> set ?xs) pending_futs = filter (\<lambda>x. x \<in> set ?xs) (?hp ?xs)"
    unfolding p by (rule filter_own_block [OF dist mem]) auto
  have notin: "\<And>l. filter (\<lambda>x. x \<in> set ?xs) l = [] \<Longrightarrow> \<forall>c \<in> set wi_contexts. ctx_fut c \<notin> set l"
    by (auto simp: filter_empty_conv)
  show ?thesis
  proof (cases "\<forall>c \<in> set wi_contexts. fut_done st (ctx_fut c)")
    case True
    then have all: "\<forall>f \<in> set ?xs. fut_done st f" by simp
    have e1: "?hd ?xs = ?xs" and e2: "?hp ?xs = []" using all by simp_all
    have "filter (\<lambda>x. x \<in> set ?xs) done_futs = filter (\<lambda>x. x \<in> set ?xs) ?xs"
      by (simp only: fd e1)
    then have 1: "filter (\<lambda>f. f \<in> ctx_fut ` set wi_contexts) done_futs = ?xs"
      by simp
    have "filter (\<lambda>x. x \<in> set ?xs) pending_futs = filter (\<lambda>x. x \<in> set ?xs) []"
      by (simp only: fp e2)
    then have "filter (\<lambda>x. x \<in> set ?xs) pending_futs = []" by simp
    from notin [OF this] have 2: "\<forall>c \<in> set wi_contexts. ctx_fut c \<notin> set pending_futs" .
    show ?thesis unfolding if_P [OF True] using sorted 1 2 by blast
  next
    case False
    then have some: "\<not> (\<forall>f \<in> set ?xs. fut_done st f)" by simp
    have e1: "?hd ?xs = []" and e2: "?hp ?xs = filter (\<lambda>f. \<not> fut_done st f) ?xs"
      using some by auto
    have "filter (\<lambda>x. x \<in> set ?xs) done_futs = filter (\<lambda>x. x \<in> set ?xs) []"
      by (simp only: fd e1)
    then have "filter (\<lambda>x. x \<in> set ?xs) done_futs = []" by simp
    from notin [OF this] have 1: "\<forall>c \<in> set wi_contexts. ctx_fut c \<notin> set done_futs" .
    have own: "filter (\<lambda>x. x \<in> set ?xs) (filter (\<lambda>f. \<not> fut_done st f) ?xs)
            = filter (\<lambda>f. \<not> fut_done st f) ?xs"
      by (rule filter_True) simp
    have "filter (\<lambda>x. x \<in> set ?xs) pending_futs
            = filter (\<lambda>x. x \<in> set ?xs) (filter (\<lambda>f. \<not> fut_done st f) ?xs)"
      by (simp only: fp e2)
    with own have 2: "filter (\<lambda>f. f \<in> ctx_fut ` set wi_contexts) pending_futs
                 = filter (\<lambda>f. \<not> fut_done st f) ?xs"
      by simp
    show ?thesis unfolding if_not_P [OF False] using sorted 1 2 by blast
  qed
qed

theorem settled_only_when_all_handles_done_witness:
  "reachable s4_writer_done \<and>
   running_wi_contexts s4_writer_done
     = [(0, [\<lparr>ctx_cur_stage = 0, ctx_fut = 3, ctx_wi = 0\<rparr>,
             \<lparr>ctx_cur_stage = 1, ctx_fut = 4, ctx_wi = 0\<rparr>])] \<and>
   fut_done s4_writer_done 3 \<and> \<not> fut_done s4_writer_done 4 \<and>
   fst (get_all_wi_futs s4_writer_done) = ([], [4]) \<and>
   3 \<notin> set (fst (fst (get_all_wi_futs s4_writer_done))) \<and>
   4 \<notin> set (fst (fst (get_all_wi_futs s4_writer_done))) \<and>
   reachable s4_both_done \<and>
   fut_done s4_both_done 3 \<and> fut_done s4_both_done 4 \<and>
   fst (get_all_wi_futs s4_both_done) = ([3, 4], []) \<and>
   sorted_wrt (<) (map ctx_cur_stage [\<lparr>ctx_cur_stage = 0, ctx_fut = 3, ctx_wi = 0\<rparr>,
                                      \<lparr>ctx_cur_stage = 1, ctx_fut = 4, ctx_wi = 0\<rparr>])"
proof -
  let ?cs = "[\<lparr>ctx_cur_stage = 0, ctx_fut = 3, ctx_wi = 0\<rparr>,
              \<lparr>ctx_cur_stage = 1, ctx_fut = 4, ctx_wi = 0\<rparr>]"
  have run: "running_wi_contexts s4_writer_done = [(0, ?cs)]" by code_simp
  have d3: "fut_done s4_writer_done 3" by code_simp
  have d4: "\<not> fut_done s4_writer_done 4" by code_simp
  have g: "fst (get_all_wi_futs s4_writer_done) = ([], [4])" by code_simp
  then have g': "get_all_wi_futs s4_writer_done = (([], [4]), snd (get_all_wi_futs s4_writer_done))"
    by (metis prod.collapse)
  have mem: "(0, ?cs) \<in> set (running_wi_contexts s4_writer_done)" by (simp add: run)
  note t = settled_only_when_all_handles_done [OF s4_writer_done_reachable g' mem]
  from t d4 have no: "\<forall>c \<in> set ?cs. ctx_fut c \<notin> set []" by simp
  from t have so: "sorted_wrt (<) (map ctx_cur_stage ?cs)" by blast
  have b3: "fut_done s4_both_done 3" by code_simp
  have b4: "fut_done s4_both_done 4" by code_simp
  have gb: "fst (get_all_wi_futs s4_both_done) = ([3, 4], [])" by code_simp
  from g have n3: "3 \<notin> set (fst (fst (get_all_wi_futs s4_writer_done)))"
    and n4: "4 \<notin> set (fst (fst (get_all_wi_futs s4_writer_done)))" by simp_all
  from s4_writer_done_reachable run d3 d4 g n3 n4 s4_both_done_reachable b3 b4 gb so
  show ?thesis by blast
qed

text \<open>
  C4 as stated fails.  In the run of the paired writer and reader, the writer's future 3
  (endpoint 1) and the reader's future 4 (endpoint 0) belong to the same paired run of item
  0.  Once future 3 has settled and future 4 is still pending, the resumed iteration of the
  controller scans the outstanding executions, closes endpoint 1 and goes back to waiting:
  endpoint 1 has been closed while the partner future 4 is pending and item 0 is still
  running.  \<^verbatim>\<open>_get_all_wi_futs\<close> calls \<^verbatim>\<open>_cleanup_pipe_connections\<close> for every
  future of the item that is done, before it looks whether the item has pending futures.
\<close>

theorem writer_endpoint_closed_while_reader_pending:
  "map sub_fut (submissions s4_writer_done) = [3, 4] \<and>
   map_of (running_wi_contexts s4_writer_done) 0
     = Some [\<lparr>ctx_cur_stage = 0, ctx_fut = 3, ctx_wi = 0\<rparr>,
             \<lparr>ctx_cur_stage = 1, ctx_fut = 4, ctx_wi = 0\<rparr>] \<and>
   fut_to_pipe_conn s4_writer_done 3 = Some 1 \<and>
   fut_to_pipe_conn s4_writer_done 4 = Some 0 \<and>
   futs s4_writer_done 3 = Done_Result (ValWorkItem 1) \<and>
   futs s4_writer_done 4 = Pending \<and>
   conn_close_calls s4_writer_done 1 = 0 \<and>
   fst (pl_worker_resume s4_writer_done) = Blocks \<and>
   conn_close_calls s4_writer_seen 1 = 1 \<and>
   conn_close_calls s4_writer_seen 0 = 0 \<and>
   futs s4_writer_seen 4 = Pending \<and>
   is_wi_still_running s4_writer_seen 0"
  by code_simp

text \<open>
  C4, amended.  In every reachable state no endpoint has been closed more than once, and an
  endpoint \<open>c\<close> recorded in the table for a future \<open>f\<close> has not been closed yet and \<open>f\<close> is
  among the outstanding executions.  The next scan of the controller closes \<open>c\<close> exactly
  when \<open>f\<close> itself is done, whatever the state of the partner future: if \<open>f\<close> is done, after
  the scan \<open>c\<close> has been closed once and the entry of \<open>f\<close> is gone, so that
  \<open>c\<close> is never closed again; if \<open>f\<close> is not done, \<open>c\<close> is still unclosed and still recorded.
\<close>

theorem endpoint_closed_once_when_own_handle_done:
  assumes "reachable st"
  shows "conn_close_calls st c \<le> 1 \<and>
         (fut_to_pipe_conn st f = Some c \<longrightarrow>
            conn_close_calls st c = 0 \<and> tracked st f \<and>
            (if fut_done st f
             then conn_close_calls (snd (get_all_wi_futs st)) c = 1 \<and>
                  fut_to_pipe_conn (snd (get_all_wi_futs st)) f = None
             else conn_close_calls (snd (get_all_wi_futs st)) c = 0 \<and>
                  fut_to_pipe_conn (snd (get_all_wi_futs st)) f = Some c))"
proof -
  from assms have inv: "conn_inv st" using reachable_inv by (simp add: tables_inv_def)
  then have le: "conn_close_calls st c \<le> 1" unfolding conn_inv_def by blast
  have rest: "conn_close_calls st c = 0 \<and> tracked st f \<and>
            (if fut_done st f
             then conn_close_calls (snd (get_all_wi_futs st)) c = 1 \<and>
                  fut_to_pipe_conn (snd (get_all_wi_futs st)) f = None
             else conn_close_calls (snd (get_all_wi_futs st)) c = 0 \<and>
                  fut_to_pipe_conn (snd (get_all_wi_futs st)) f = Some c)"
    if rec: "fut_to_pipe_conn st f = Some c"
  proof -
    let ?all = "concat (map (\<lambda>q. map ctx_fut (snd q)) (running_wi_contexts st))"
    let ?cl = "filter (fut_done st) ?all"
    from inv rec have z: "conn_close_calls st c = 0" and tr: "tracked st f"
      unfolding conn_inv_def by blast+
    from inv have inj: "inj_on (fut_to_pipe_conn st) (dom (fut_to_pipe_conn st))"
      unfolding conn_inv_def by blast
    from tr obtain w cs where "map_of (running_wi_contexts st) w = Some cs" "f \<in> ctx_fut ` set cs"
      unfolding tracked_def by blast
    then have "(w, cs) \<in> set (running_wi_contexts st)" "f \<in> set (map ctx_fut cs)"
      by (auto dest: map_of_SomeD)
    then have fin: "f \<in> set ?all" by force
    have only: "\<And>g. fut_to_pipe_conn st g = Some c \<Longrightarrow> g = f"
      using inj rec by (auto simp: inj_on_def dom_def)
    have incl: "f \<in> set ?cl = fut_done st f"
      using fin by (simp only: set_filter mem_Collect_eq) blast
    have ex: "(\<exists>g \<in> set ?cl. fut_to_pipe_conn st g = Some c) = fut_done st f"
      using only rec incl by blast
    have calls: "conn_close_calls (snd (get_all_wi_futs st)) c = (if fut_done st f then 1 else 0)"
      by (simp only: get_all_wi_futs_state fold_cleanup_calls [OF inj] z ex add_0)
    have tab: "fut_to_pipe_conn (snd (get_all_wi_futs st)) f = (if fut_done st f then None else Some c)"
      by (simp only: get_all_wi_futs_state fold_cleanup_table incl rec)
    from z tr calls tab show ?thesis by simp
  qed
  from le rest show ?thesis by blast
qed

theorem endpoint_closed_once_when_own_handle_done_witness:
  "reachable s4_writer_done \<and>
   fut_to_pipe_conn s4_writer_done 3 = Some 1 \<and>
   fut_done s4_writer_done 3 \<and>
   conn_close_calls s4_writer_done 1 = 0 \<and>
   conn_close_calls (snd (get_all_wi_futs s4_writer_done)) 1 = 1 \<and>
   fut_to_pipe_conn (snd (get_all_wi_futs s4_writer_done)) 3 = None \<and>
   fut_to_pipe_conn s4_writer_done 4 = Some 0 \<and>
   \<not> fut_done s4_writer_done 4 \<and>
   conn_close_calls (snd (get_all_wi_futs s4_writer_done)) 0 = 0 \<and>
   fut_to_pipe_conn (snd (get_all_wi_futs s4_writer_done)) 4 = Some 0"
proof -
  have t3: "fut_to_pipe_conn s4_writer_done 3 = Some 1" by code_simp
  have t4: "fut_to_pipe_conn s4_writer_done 4 = Some 0" by code_simp
  have d3: "fut_done s4_writer_done 3" by code_simp
  have d4: "\<not> fut_done s4_writer_done 4" by code_simp
  from endpoint_closed_once_when_own_handle_done [OF s4_writer_done_reachable, of 1 3] t3 d3
  have a: "conn_close_calls s4_writer_done 1 = 0"
    "conn_close_calls (snd (get_all_wi_futs s4_writer_done)) 1 = 1"
    "fut_to_pipe_conn (snd (get_all_wi_futs s4_writer_done)) 3 = None"
    by simp_all
  from endpoint_closed_once_when_own_handle_done [OF s4_writer_done_reachable, of 0 4] t4 d4
  have b: "conn_close_calls (snd (get_all_wi_futs s4_writer_done)) 0 = 0"
    "fut_to_pipe_conn (snd (get_all_wi_futs s4_writer_done)) 4 = Some 0"
    by simp_all
  from s4_writer_done_reachable t3 d3 a t4 d4 b show ?thesis by blast
qed

end
